theory Spec2Isabelle
  imports Main "HOL-Library.Word" "HOL-Library.Multiset" "HOL-Library.Monad_Syntax"
begin

section \<open>Shared entry type (HttpResponse.h)\<close>

text \<open>
  \<^verbatim>\<open>struct timespec\<close> has two \<^verbatim>\<open>long\<close> fields; on the LP64 targets the servers are
  written for, \<^verbatim>\<open>long\<close> is a 64-bit two's complement integer, read with \<open>sint\<close>.
\<close>

type_synonym long = "64 word"

record timespec =
  tv_sec :: long
  tv_nsec :: long

text \<open>
  \<^verbatim>\<open>HttpResponse\<close>: \<^verbatim>\<open>filename\<close> and \<^verbatim>\<open>response\<close> are heap buffers owned by the struct,
  modelled by their contents.
\<close>

record HttpResponse =
  filename :: string
  response :: string
  filesize :: nat
  access_time :: timespec

definition MAX_items :: nat where
  "MAX_items = 5"

definition LONG_MAX :: long where
  "LONG_MAX = 0x7FFFFFFFFFFFFFFF"

section \<open>PriorityQueue.c: the array engine\<close>

text \<open>
  \<^verbatim>\<open>pq->items\<close> is an array of \<^verbatim>\<open>MAX\<close> pointers of which the first \<^verbatim>\<open>pq->size\<close> are in
  use. The model keeps, for every slot in use, the struct its pointer refers to:
  \<open>items pq ! i\<close> is \<^verbatim>\<open>*pq->items[i]\<close> and \<open>length (items pq)\<close> is \<^verbatim>\<open>pq->size\<close>.
  The pointers stored in the slots are pairwise different (each comes from its own
  \<^verbatim>\<open>malloc\<close> in the handler), so the pointer held by slot \<open>i\<close> is identified with \<open>i\<close>.
\<close>

record PriorityQueue =
  items :: "HttpResponse list"

definition pq_empty :: PriorityQueue where
  "pq_empty = \<lparr>items = []\<rparr>"

text \<open>
  \<^verbatim>\<open>swap(a, b)\<close> exchanges the two structs \<^verbatim>\<open>*a\<close> and \<^verbatim>\<open>*b\<close>; the pointers in the slots
  stay where they are. It is only called on the pointers of two slots.
\<close>

definition swap :: "PriorityQueue \<Rightarrow> nat \<Rightarrow> nat \<Rightarrow> PriorityQueue" where
  "swap pq a b = pq\<lparr>items := (items pq)[a := items pq ! b, b := items pq ! a]\<rparr>"

definition compare_timespec :: "timespec \<Rightarrow> timespec \<Rightarrow> int" where
  "compare_timespec time1 time2 =
     (if sint (tv_sec time1) > sint (tv_sec time2) then 1
      else if sint (tv_sec time1) < sint (tv_sec time2) then - 1
      else (if sint (tv_nsec time1) > sint (tv_nsec time2) then 1
            else (if sint (tv_nsec time1) < sint (tv_nsec time2) then - 1 else 0)))"

text \<open>
  \<^verbatim>\<open>heapifyUp\<close>: the test is \<^verbatim>\<open>compare_timespec(parent, child) == -1\<close>, that is, the
  parent is exchanged with the child when the parent's time is the smaller one.
  Every caller passes an index below \<^verbatim>\<open>pq->size\<close>.
\<close>

fun heapifyUp :: "PriorityQueue \<Rightarrow> nat \<Rightarrow> PriorityQueue" where
  "heapifyUp pq index =
     (if index \<noteq> 0
         \<and> compare_timespec (access_time (items pq ! ((index - 1) div 2)))
                            (access_time (items pq ! index)) = - 1
      then heapifyUp (swap pq ((index - 1) div 2) index) ((index - 1) div 2)
      else pq)"

declare heapifyUp.simps [simp del]

text \<open>
  \<^verbatim>\<open>search\<close>: the loop over \<^verbatim>\<open>i = 0 .. size-1\<close>. \<open>now\<close> is what
  \<^verbatim>\<open>clock_gettime(CLOCK_REALTIME, ...)\<close> writes. The result is the returned pointer
  (\<open>None\<close> for \<^verbatim>\<open>NULL\<close>, \<open>Some i\<close> for the pointer \<^verbatim>\<open>pq->items[i]\<close> taken before
  \<^verbatim>\<open>heapifyUp\<close> runs) and the queue afterwards.
\<close>

function search_loop ::
  "timespec \<Rightarrow> PriorityQueue \<Rightarrow> string \<Rightarrow> nat \<Rightarrow> nat option \<times> PriorityQueue" where
  "search_loop now pq target i =
     (if i < length (items pq)
      then (if filename (items pq ! i) = target
            then (Some i,
                  heapifyUp (pq\<lparr>items := (items pq)[i := (items pq ! i)\<lparr>access_time := now\<rparr>]\<rparr>) i)
            else search_loop now pq target (i + 1))
      else (None, pq))"
  by pat_completeness auto
termination
  by (relation "measure (\<lambda>(now, pq, target, i). length (items pq) - i)") auto

declare search_loop.simps [simp del]

definition pq_search :: "timespec \<Rightarrow> PriorityQueue \<Rightarrow> string \<Rightarrow> nat option \<times> PriorityQueue" where
  "pq_search now pq target = search_loop now pq target 0"

text \<open>What the caller reads through a pointer returned by \<^verbatim>\<open>search\<close>.\<close>

definition deref :: "PriorityQueue \<Rightarrow> nat \<Rightarrow> HttpResponse" where
  "deref pq p = items pq ! p"

text \<open>
  \<^verbatim>\<open>enqueue\<close>, full branch: the scan \<^verbatim>\<open>for (i = 0; i < amt; i++)\<close> over the slots
  \<^verbatim>\<open>size - i - 1\<close>, carrying \<^verbatim>\<open>min\<close> and \<^verbatim>\<open>min_index\<close>.
\<close>

definition scan_step ::
  "PriorityQueue \<Rightarrow> timespec \<times> nat \<Rightarrow> nat \<Rightarrow> timespec \<times> nat" where
  "scan_step pq acc i =
     (if compare_timespec (access_time (items pq ! (length (items pq) - i - 1))) (fst acc) = - 1
      then (access_time (items pq ! (length (items pq) - i - 1)), length (items pq) - i - 1)
      else acc)"

definition min_index :: "PriorityQueue \<Rightarrow> nat" where
  "min_index pq =
     snd (foldl (scan_step pq)
            (\<lparr>tv_sec = LONG_MAX, tv_nsec = LONG_MAX\<rparr>, MAX_items - 1)
            [0 ..< length (items pq) div 2 + 1])"

text \<open>
  \<^verbatim>\<open>enqueue\<close>. In the full branch the struct of the chosen slot is freed and the slot
  receives the new pointer; otherwise the new pointer goes to slot \<^verbatim>\<open>size\<close>.
\<close>

definition pq_enqueue :: "PriorityQueue \<Rightarrow> HttpResponse \<Rightarrow> PriorityQueue" where
  "pq_enqueue pq v =
     (if length (items pq) = MAX_items
      then heapifyUp (pq\<lparr>items := (items pq)[min_index pq := v]\<rparr>) (min_index pq)
      else heapifyUp (pq\<lparr>items := items pq @ [v]\<rparr>) (length (items pq)))"

section \<open>Ordering of access times\<close>

text \<open>
  \<open>older_eq a b\<close>: the time \<open>a\<close> is not later than \<open>b\<close>, as \<^verbatim>\<open>compare_timespec\<close>
  decides it.
\<close>

definition older_eq :: "timespec \<Rightarrow> timespec \<Rightarrow> bool" where
  "older_eq a b \<longleftrightarrow> compare_timespec a b \<noteq> 1"

definition newer_than :: "HttpResponse \<Rightarrow> HttpResponse \<Rightarrow> bool" where
  "newer_than a b \<longleftrightarrow> older_eq (access_time b) (access_time a)"

definition parent_newer :: "PriorityQueue \<Rightarrow> bool" where
  "parent_newer pq \<longleftrightarrow>
     list_all (\<lambda>i. older_eq (access_time (items pq ! i)) (access_time (items pq ! ((i - 1) div 2))))
       [1 ..< length (items pq)]"

definition parent_older :: "PriorityQueue \<Rightarrow> bool" where
  "parent_older pq \<longleftrightarrow>
     list_all (\<lambda>i. older_eq (access_time (items pq ! ((i - 1) div 2))) (access_time (items pq ! i)))
       [1 ..< length (items pq)]"

definition newer_except :: "HttpResponse list \<Rightarrow> nat \<Rightarrow> bool" where
  "newer_except xs k \<longleftrightarrow>
     (\<forall>i. 0 < i \<and> i < length xs \<and> i \<noteq> k \<longrightarrow> newer_than (xs ! ((i - 1) div 2)) (xs ! i)) \<and>
     (\<forall>i. 0 < i \<and> i < length xs \<and> (i - 1) div 2 = k \<and> 0 < k \<longrightarrow>
          newer_than (xs ! ((k - 1) div 2)) (xs ! i))"

text \<open>
  A caller's view of the array engine: the handler of \<^verbatim>\<open>server_cached_naive.c\<close> calls
  \<^verbatim>\<open>search\<close> (with the clock value of that moment) and, after a miss, \<^verbatim>\<open>enqueue\<close>.
\<close>

datatype pq_op = Enq HttpResponse | Srch timespec string

fun pq_run :: "PriorityQueue \<Rightarrow> pq_op list \<Rightarrow> PriorityQueue" where
  "pq_run pq [] = pq"
| "pq_run pq (Enq v # ops) = pq_run (pq_enqueue pq v) ops"
| "pq_run pq (Srch now target # ops) = pq_run (snd (pq_search now pq target)) ops"

text \<open>
  \<open>clock_ok pq ops\<close>: along the run, the clock value of every lookup is not older than
  any access time stored in the queue at that moment.
\<close>

fun clock_ok :: "PriorityQueue \<Rightarrow> pq_op list \<Rightarrow> bool" where
  "clock_ok pq [] = True"
| "clock_ok pq (Enq v # ops) = clock_ok (pq_enqueue pq v) ops"
| "clock_ok pq (Srch now target # ops) =
     (list_all (\<lambda>e. older_eq (access_time e) now) (items pq)
      \<and> clock_ok (snd (pq_search now pq target)) ops)"

text \<open>The struct that a call of \<^verbatim>\<open>enqueue\<close> on a full queue frees.\<close>

definition evicted :: "PriorityQueue \<Rightarrow> HttpResponse" where
  "evicted pq = items pq ! min_index pq"

text \<open>Entries for concrete runs: key, payload, seconds of the access time.\<close>

definition entry :: "string \<Rightarrow> string \<Rightarrow> long \<Rightarrow> HttpResponse" where
  "entry k p s =
     \<lparr>filename = k, response = p, filesize = length p,
      access_time = \<lparr>tv_sec = s, tv_nsec = 0\<rparr>\<rparr>"

section \<open>The deque engine (server with reference counts)\<close>

text \<open>
  Nodes live in a store: \<open>mem s a\<close> is the \<^verbatim>\<open>Node\<close> allocated at address \<open>a\<close>, or \<open>None\<close>
  when nothing is allocated there (never allocated, or freed). A node owns its
  \<^verbatim>\<open>HttpResponse\<close> (\<^verbatim>\<open>node->data\<close> and its two buffers are freed with the node and by
  nobody else), so the struct is kept inside the node. A pointer is an \<open>addr option\<close>,
  \<open>None\<close> for \<^verbatim>\<open>NULL\<close>. The fields \<^verbatim>\<open>prev\<close>, \<^verbatim>\<open>next\<close> and \<^verbatim>\<open>size\<close> carry a suffix.
\<close>

type_synonym addr = nat

text \<open>
  \<^verbatim>\<open>valid\<close> and \<^verbatim>\<open>reference_count\<close> are of type \<^verbatim>\<open>int\<close>, a 32-bit two's complement
  integer, read with \<open>sint\<close>: \<^verbatim>\<open>++\<close> on 2147483647 gives -2147483648, \<^verbatim>\<open>--\<close> on
  -2147483648 gives 2147483647.
\<close>

type_synonym cint = "32 word"

record Node =
  data :: HttpResponse
  prev_node :: "addr option"
  next_node :: "addr option"
  valid :: cint
  reference_count :: cint

record Deque =
  head :: "addr option"
  tail :: "addr option"
  size_deck :: nat

record server =
  mem :: "addr \<Rightarrow> Node option"
  deck :: Deque

definition MAX_CACHE_COUNT :: nat where
  "MAX_CACHE_COUNT = 5"

text \<open>\<^verbatim>\<open>main\<close>: the deque is allocated with size 0 and both pointers \<^verbatim>\<open>NULL\<close>.\<close>

definition server_init :: server where
  "server_init = \<lparr>mem = (\<lambda>a. None), deck = \<lparr>head = None, tail = None, size_deck = 0\<rparr>\<rparr>"

text \<open>
  Reading through a pointer: \<open>None\<close> when the pointer is \<^verbatim>\<open>NULL\<close> or nothing is allocated
  at its address (in C, undefined behaviour). Every function below that dereferences a
  pointer returns an \<open>option\<close>, \<open>None\<close> for such a fault.
\<close>

definition load :: "server \<Rightarrow> addr option \<Rightarrow> (addr \<times> Node) option" where
  "load s p =
     (case p of None \<Rightarrow> None
      | Some a \<Rightarrow> (case mem s a of None \<Rightarrow> None | Some n \<Rightarrow> Some (a, n)))"

definition store :: "addr \<Rightarrow> Node \<Rightarrow> server \<Rightarrow> server" where
  "store a n s = s\<lparr>mem := (mem s)(a \<mapsto> n)\<rparr>"

text \<open>
  The loop of \<^verbatim>\<open>search\<close>: \<^verbatim>\<open>for (curr = deck->head; curr != NULL; curr = curr->next)\<close>.
  On a list whose \<^verbatim>\<open>next\<close> pointers form a cycle it does not return; the result \<open>None\<close>
  stands for that and for a fault, \<open>Some None\<close> for leaving the loop without a match.
\<close>

partial_function (option) search_nodes ::
  "(addr \<Rightarrow> Node option) \<Rightarrow> addr option \<Rightarrow> string \<Rightarrow> addr option option" where
  "search_nodes m cur target =
     (case cur of None \<Rightarrow> Some None
      | Some c \<Rightarrow>
          (case m c of None \<Rightarrow> None
           | Some n \<Rightarrow>
               if filename (data n) = target then Some (Some c)
               else search_nodes m (next_node n) target))"

declare search_nodes.simps [code]

text \<open>
  \<^verbatim>\<open>search\<close>: on a match the reference count of the node goes up by one, the node goes
  to \<^verbatim>\<open>*existing_node\<close> and its \<^verbatim>\<open>data\<close> is returned; nothing else is written. The result
  pairs the node's address with the struct \<^verbatim>\<open>data\<close> points to; \<open>None\<close> is \<^verbatim>\<open>NULL\<close>.
\<close>

definition dq_search ::
  "server \<Rightarrow> string \<Rightarrow> ((addr \<times> HttpResponse) option \<times> server) option" where
  "dq_search s target =
     (if size_deck (deck s) = 0 then Some (None, s)
      else do {
        found \<leftarrow> search_nodes (mem s) (head (deck s)) target;
        (case found of
           None \<Rightarrow> Some (None, s)
         | Some c \<Rightarrow> do {
             (_, n) \<leftarrow> load s (Some c);
             Some (Some (c, data n),
                   store c (n\<lparr>reference_count := reference_count n + 1\<rparr>) s)
           })
      })"

text \<open>\<^verbatim>\<open>put_down\<close>: the node and its data are freed when the count reaches 0 on a node
  that is no longer valid.\<close>

definition put_down :: "addr \<Rightarrow> server \<Rightarrow> server option" where
  "put_down node s = do {
     (_, n) \<leftarrow> load s (Some node);
     let s1 = store node (n\<lparr>reference_count := reference_count n - 1\<rparr>) s;
     (_, n1) \<leftarrow> load s1 (Some node);
     if reference_count n1 = 0 \<and> valid n1 = 0
     then Some (s1\<lparr>mem := (mem s1)(node := None)\<rparr>)
     else Some s1
   }"

text \<open>\<^verbatim>\<open>remove_tail\<close>, statement by statement. Nothing is freed here.\<close>

definition remove_tail :: "server \<Rightarrow> server option" where
  "remove_tail s = do {
     (old, on) \<leftarrow> load s (tail (deck s));
     let s1 = s\<lparr>deck := (deck s)\<lparr>tail := prev_node on\<rparr>\<rparr>;
     (t, tn) \<leftarrow> load s1 (tail (deck s1));
     let s2 = store t (tn\<lparr>next_node := None\<rparr>) s1;
     (_, on2) \<leftarrow> load s2 (Some old);
     Some (store old (on2\<lparr>valid := 0\<rparr>) s2)
   }"

text \<open>
  \<^verbatim>\<open>enqueue\<close>. \<open>newNode\<close> is what \<^verbatim>\<open>malloc(sizeof(Node))\<close> returned: \<open>None\<close> for \<^verbatim>\<open>NULL\<close>,
  otherwise an address at which nothing was allocated. The fields \<^verbatim>\<open>prev\<close> and \<^verbatim>\<open>next\<close>
  of the new node are not initialised by \<^verbatim>\<open>malloc\<close>; every branch writes both before
  anything reads them, so the model starts them as \<open>None\<close>.
\<close>

text \<open>
  \<open>link_at_head\<close> is the pair of statements \<^verbatim>\<open>newNode->next = deck->head;\<close>
  \<^verbatim>\<open>deck->head->prev = newNode;\<close> with which two of the three branches begin.
\<close>

definition link_at_head :: "addr \<Rightarrow> server \<Rightarrow> server option" where
  "link_at_head nn s = do {
     (_, n1) \<leftarrow> load s (Some nn);
     let s1 = store nn (n1\<lparr>next_node := head (deck s)\<rparr>) s;
     (h, hn) \<leftarrow> load s1 (head (deck s1));
     Some (store h (hn\<lparr>prev_node := Some nn\<rparr>) s1)
   }"

definition dq_enqueue :: "addr option \<Rightarrow> HttpResponse \<Rightarrow> server \<Rightarrow> server option" where
  "dq_enqueue newNode new s =
     (case newNode of
        None \<Rightarrow> Some s
      | Some nn \<Rightarrow>
          let s0 = store nn \<lparr>data = new, prev_node = None, next_node = None,
                              valid = 1, reference_count = 0\<rparr> s
          in if size_deck (deck s0) = MAX_CACHE_COUNT then do {
               s1 \<leftarrow> remove_tail s0;
               s2 \<leftarrow> link_at_head nn s1;
               let s3 = s2\<lparr>deck := (deck s2)\<lparr>head := Some nn\<rparr>\<rparr>;
               (_, n3) \<leftarrow> load s3 (Some nn);
               Some (store nn (n3\<lparr>prev_node := None\<rparr>) s3)
             }
             else if size_deck (deck s0) = 0 then do {
               let s1 = s0\<lparr>deck := (deck s0)\<lparr>head := Some nn, tail := Some nn\<rparr>\<rparr>;
               (_, n1) \<leftarrow> load s1 (Some nn);
               let s2 = store nn (n1\<lparr>next_node := None, prev_node := None\<rparr>) s1;
               Some (s2\<lparr>deck := (deck s2)\<lparr>size_deck := size_deck (deck s2) + 1\<rparr>\<rparr>)
             }
             else do {
               s2 \<leftarrow> link_at_head nn s0;
               (_, n2) \<leftarrow> load s2 (Some nn);
               let s3 = store nn (n2\<lparr>prev_node := None\<rparr>) s2;
               let s4 = s3\<lparr>deck := (deck s3)\<lparr>head := Some nn\<rparr>\<rparr>;
               Some (s4\<lparr>deck := (deck s4)\<lparr>size_deck := size_deck (deck s4) + 1\<rparr>\<rparr>)
             })"

text \<open>
  The shape of the list, for the proofs: \<open>chain m prv as p\<close> says that following the
  \<^verbatim>\<open>next\<close> pointers from \<open>p\<close> visits exactly the addresses \<open>as\<close> and ends in \<^verbatim>\<open>NULL\<close>, that
  each of these nodes is valid, and that its \<^verbatim>\<open>prev\<close> pointer is the node before it
  (\<open>prv\<close> for the first).
\<close>

fun chain :: "(addr \<Rightarrow> Node option) \<Rightarrow> addr option \<Rightarrow> addr list \<Rightarrow> addr option \<Rightarrow> bool" where
  "chain m prv [] p = (p = None)"
| "chain m prv (a # as) p =
     (p = Some a \<and>
      (case m a of None \<Rightarrow> False
       | Some n \<Rightarrow> valid n = 1 \<and> prev_node n = prv \<and> chain m (Some a) as (next_node n)))"

text \<open>The nodes that are allocated and not retired.\<close>

definition live :: "server \<Rightarrow> addr set" where
  "live s = {a. \<exists>n. mem s a = Some n \<and> valid n \<noteq> 0}"

text \<open>
  \<open>dq_inv s as\<close>: the deque of \<open>s\<close> is the list of the nodes \<open>as\<close>, head first, and these
  are all the nodes that are not retired.
\<close>

definition dq_inv :: "server \<Rightarrow> addr list \<Rightarrow> bool" where
  "dq_inv s as \<longleftrightarrow>
     distinct as \<and> length as \<le> MAX_CACHE_COUNT \<and> size_deck (deck s) = length as
     \<and> chain (mem s) None as (head (deck s))
     \<and> tail (deck s) = (if as = [] then None else Some (last as))
     \<and> live s = set as"

text \<open>The entries of the nodes \<open>as\<close>, in that order.\<close>

definition entries :: "server \<Rightarrow> addr list \<Rightarrow> HttpResponse list" where
  "entries s as = map (\<lambda>a. data (the (mem s a))) as"

text \<open>
  What a successful \<^verbatim>\<open>enqueue\<close> of \<open>r\<close> at the new address \<open>nn\<close> does to a deque with the
  nodes \<open>as\<close>: the new node is first, the last node is dropped from a full list and
  marked invalid, and no other node changes its data, count or validity.
\<close>

definition enq_post :: "server \<Rightarrow> addr list \<Rightarrow> addr \<Rightarrow> HttpResponse \<Rightarrow> server \<Rightarrow> bool" where
  "enq_post s as nn r s' \<longleftrightarrow>
     dq_inv s' (nn # (if length as = MAX_CACHE_COUNT then butlast as else as))
     \<and> (\<exists>n. mem s' nn = Some n \<and> data n = r \<and> reference_count n = 0 \<and> valid n = 1)
     \<and> (\<forall>a. a \<noteq> nn \<longrightarrow> map_option data (mem s' a) = map_option data (mem s a)
                   \<and> map_option reference_count (mem s' a) = map_option reference_count (mem s a))
     \<and> (\<forall>a. a \<noteq> nn \<longrightarrow> map_option valid (mem s' a) =
            (if length as = MAX_CACHE_COUNT \<and> a = last as then Some 0
             else map_option valid (mem s a)))"

text \<open>
  A run of \<^verbatim>\<open>enqueue\<close> calls, each with what its \<^verbatim>\<open>malloc\<close> returned. \<open>allocs_fresh\<close>
  says that every address \<^verbatim>\<open>malloc\<close> returned was free at that moment, \<open>made\<close> lists
  the nodes the run created, oldest first.
\<close>

fun dq_run :: "server \<Rightarrow> (addr option \<times> HttpResponse) list \<Rightarrow> server option" where
  "dq_run s [] = Some s"
| "dq_run s ((a, r) # ins) = do { s' \<leftarrow> dq_enqueue a r s; dq_run s' ins }"

fun allocs_fresh :: "server \<Rightarrow> (addr option \<times> HttpResponse) list \<Rightarrow> bool" where
  "allocs_fresh s [] = True"
| "allocs_fresh s ((a, r) # ins) =
     ((case a of None \<Rightarrow> True | Some nn \<Rightarrow> mem s nn = None)
      \<and> (case dq_enqueue a r s of None \<Rightarrow> True | Some s' \<Rightarrow> allocs_fresh s' ins))"

fun made :: "(addr option \<times> HttpResponse) list \<Rightarrow> (addr \<times> HttpResponse) list" where
  "made [] = []"
| "made ((None, r) # ins) = made ins"
| "made ((Some a, r) # ins) = (a, r) # made ins"

text \<open>Concrete runs used below.\<close>

definition six_inserts :: "(addr option \<times> HttpResponse) list" where
  "six_inserts =
     [(Some 0, entry ''a'' ''A'' 1), (Some 1, entry ''b'' ''B'' 2), (Some 2, entry ''c'' ''C'' 3),
      (Some 3, entry ''d'' ''D'' 4), (Some 4, entry ''e'' ''E'' 5), (Some 5, entry ''f'' ''F'' 6)]"

definition two_nodes :: server where
  "two_nodes = the (dq_run server_init [(Some 0, entry ''a'' ''AAA'' 1), (Some 1, entry ''b'' ''BBB'' 2)])"

text \<open>The deque \<open>two_nodes\<close> with the count of the node of a at 2147483647.\<close>

definition pinned_max :: server where
  "pinned_max =
     two_nodes\<lparr>mem := (mem two_nodes)(0 \<mapsto>
        \<lparr>data = entry ''a'' ''AAA'' 1, prev_node = Some 1, next_node = None,
         valid = 1, reference_count = 2147483647\<rparr>)\<rparr>"

definition two_slots :: PriorityQueue where
  "two_slots = pq_run pq_empty [Enq (entry ''a'' ''AAA'' 5), Enq (entry ''b'' ''BBB'' 3)]"

definition five_nodes :: server where
  "five_nodes = the (dq_run server_init (butlast six_inserts))"

definition five_slots :: PriorityQueue where
  "five_slots = pq_run pq_empty (map Enq
     [entry ''a'' ''A'' 3, entry ''b'' ''B'' 1, entry ''c'' ''C'' 4,
      entry ''d'' ''D'' 2, entry ''e'' ''E'' 5])"

section \<open>The connection handlers\<close>

text \<open>
  \<^verbatim>\<open>handle_client_connection\<close> of both servers, after the request line has been read:
  \<open>request\<close> is the path \<^verbatim>\<open>sscanf\<close> extracted (\<open>None\<close> when it failed), \<open>file\<close> the
  contents of the file \<^verbatim>\<open>fopen\<close> opened (\<open>None\<close> when it failed), \<open>m_new\<close>, \<open>m_name\<close> and
  \<open>m_resp\<close> tell whether the three \<^verbatim>\<open>malloc\<close> calls for the entry succeeded. What a handler
  does to the outside is the list of its events, in program order: the two mutexes, the
  calls into the cache, the calls of \<^verbatim>\<open>send\<close>, the log line, \<^verbatim>\<open>shutdown\<close> and \<^verbatim>\<open>close\<close>.
  The size \<^verbatim>\<open>fstat\<close> reports is the length of the contents, and \<^verbatim>\<open>fread\<close> delivers the
  contents in pieces of 1024 bytes (the last one shorter).

  \<^verbatim>\<open>send\<close> may accept fewer bytes than it is offered, or fail: \<open>tx k n\<close> is what the call
  number \<open>k\<close> of \<^verbatim>\<open>send\<close> in a handler (counted from 0) returns when it is offered \<open>n\<close>
  bytes, -1 for a failure and otherwise the number of bytes it accepted. \<open>full_send tx\<close>
  says that every call accepts all it is offered.
\<close>

type_synonym transport = "nat \<Rightarrow> nat \<Rightarrow> int"

definition full_send :: "transport \<Rightarrow> bool" where
  "full_send tx \<longleftrightarrow> (\<forall>k n. tx k n = int n)"

text \<open>
  The counters of the send loops are of type \<^verbatim>\<open>int\<close>. \<open>wrap32 x\<close> is the \<^verbatim>\<open>int\<close> that
  results when \<open>x\<close> is stored in one (two's complement, 32 bits); \<open>as_ulong x\<close> is the
  \<^verbatim>\<open>int\<close> \<open>x\<close> converted to \<^verbatim>\<open>unsigned long\<close>, as the comparison with \<^verbatim>\<open>filesize\<close> does.
\<close>

definition INT_MAX :: int where
  "INT_MAX = 2147483647"

definition wrap32 :: "int \<Rightarrow> int" where
  "wrap32 x = (x + 2147483648) mod 4294967296 - 2147483648"

definition as_ulong :: "int \<Rightarrow> nat" where
  "as_ulong x = nat (x mod 18446744073709551616)"

text \<open>
  \<open>Send (Body b)\<close> is a call of \<^verbatim>\<open>send\<close> on bytes of a file, \<open>b\<close> being the bytes it
  accepted; \<open>Send (Unread off n)\<close> is a call that accepted \<open>n\<close> bytes lying \<open>off\<close> bytes
  after the start of a buffer into which, from there on, nothing has been read yet. The
  other messages are the header lines, whose \<^verbatim>\<open>send\<close> results the code ignores.
  \<open>Write_log name n\<close> is the line written to the statistics file, with the name and the
  number it prints.
\<close>

datatype message =
    Status_ok | Date_header | Content_length nat | Connection_close | Content_type
  | Not_found | Body string | Unread nat nat

datatype event =
    Lock_cache | Unlock_cache | Cache_search | Cache_enqueue | Cache_put_down
  | Send message | Lock_log | Write_log string int | Unlock_log | Shutdown | Close

definition ok_headers :: "nat \<Rightarrow> event list" where
  "ok_headers n =
     [Send Status_ok, Send Date_header, Send (Content_length n), Send Connection_close,
      Send Content_type]"

text \<open>
  \<^verbatim>\<open>send_existing_http_response\<close> of the deque server. Its loop
  \<^verbatim>\<open>while (total_sent < http_response->filesize)\<close> compares as \<^verbatim>\<open>unsigned long\<close> and
  adds what \<^verbatim>\<open>send\<close> returned to \<^verbatim>\<open>total_sent\<close>. \<open>None\<close> stands for a loop that does not
  end and for a read before the start of the buffer. The five header sends are the
  calls 0 to 4.
\<close>

partial_function (option) send_rest ::
  "transport \<Rightarrow> HttpResponse \<Rightarrow> nat \<Rightarrow> int \<Rightarrow> event list option" where
  "send_rest tx r k total_sent =
     (if as_ulong total_sent < filesize r
      then if total_sent < 0 then None
           else do {
             es \<leftarrow> send_rest tx r (k + 1)
                    (wrap32 (total_sent + tx k (filesize r - nat total_sent)));
             Some (Send (Body (take (nat (tx k (filesize r - nat total_sent)))
                                (drop (nat total_sent) (take (filesize r) (response r))))) # es)
           }
      else Some [])"

declare send_rest.simps [code]

definition send_existing_http_response :: "transport \<Rightarrow> HttpResponse \<Rightarrow> event list option" where
  "send_existing_http_response tx r = do {
     es \<leftarrow> send_rest tx r 5 0;
     Some (ok_headers (filesize r) @ es
           @ [Lock_log, Write_log (filename r) (int (filesize r)), Unlock_log])
   }"

text \<open>
  \<^verbatim>\<open>send_existing_http_response\<close> of the naive server: the loop stores what \<^verbatim>\<open>send\<close>
  returned in the \<^verbatim>\<open>int bytes_sent\<close>, leaves when that is not positive, and the log line
  prints \<^verbatim>\<open>total_sent\<close>.
\<close>

partial_function (option) naive_send_rest ::
  "transport \<Rightarrow> HttpResponse \<Rightarrow> nat \<Rightarrow> int \<Rightarrow> (event list \<times> int) option" where
  "naive_send_rest tx r k total_sent =
     (if as_ulong total_sent < filesize r
      then if total_sent < 0 then None
           else if wrap32 (tx k (filesize r - nat total_sent)) \<le> 0
           then Some ([Send (Body (take (nat (tx k (filesize r - nat total_sent)))
                                     (drop (nat total_sent) (take (filesize r) (response r)))))],
                      total_sent)
           else do {
             (es, fin) \<leftarrow> naive_send_rest tx r (k + 1)
                    (wrap32 (total_sent + wrap32 (tx k (filesize r - nat total_sent))));
             Some (Send (Body (take (nat (tx k (filesize r - nat total_sent)))
                                (drop (nat total_sent) (take (filesize r) (response r))))) # es,
                   fin)
           }
      else Some ([], total_sent))"

declare naive_send_rest.simps [code]

definition naive_send_existing_http_response ::
  "transport \<Rightarrow> HttpResponse \<Rightarrow> event list option" where
  "naive_send_existing_http_response tx r = do {
     (es, total_sent) \<leftarrow> naive_send_rest tx r 5 0;
     Some (ok_headers (filesize r) @ es
           @ [Lock_log, Write_log (filename r) total_sent, Unlock_log])
   }"

text \<open>
  The read loop of the deque server,
  \<^verbatim>\<open>while ((bytes_read = fread(new->response + total_read, 1, 1024, f)) > 0)\<close>, and inside
  it \<^verbatim>\<open>while (sent < total_read) sent += send(connfd, new->response + sent, total_read - sent, 0)\<close>.
  The loop starts with the file position and \<^verbatim>\<open>total_read\<close> both 0, so the buffer holds
  the first \<^verbatim>\<open>total_read\<close> bytes of the file. A negative \<^verbatim>\<open>sent\<close> or \<^verbatim>\<open>total_read\<close> makes
  a pointer before the start of the buffer: \<open>None\<close>, as for a loop that does not end.
  The results are the events, the number of \<^verbatim>\<open>send\<close> calls so far and \<^verbatim>\<open>sent\<close>.
\<close>

partial_function (option) send_pending ::
  "transport \<Rightarrow> string \<Rightarrow> nat \<Rightarrow> int \<Rightarrow> int \<Rightarrow> (event list \<times> nat \<times> int) option" where
  "send_pending tx content k sent total_read =
     (if sent < total_read
      then if sent < 0 then None
           else do {
             (es, k', fin) \<leftarrow> send_pending tx content (k + 1)
                    (wrap32 (sent + tx k (nat (total_read - sent)))) total_read;
             Some (Send (Body (take (nat (tx k (nat (total_read - sent))))
                                (drop (nat sent) (take (nat total_read) content)))) # es,
                   k', fin)
           }
      else Some ([], k, sent))"

declare send_pending.simps [code]

partial_function (option) read_send ::
  "transport \<Rightarrow> string \<Rightarrow> nat \<Rightarrow> int \<Rightarrow> int \<Rightarrow> (event list \<times> int) option" where
  "read_send tx content k total_read sent =
     (if total_read < 0 then None
      else if 0 < min 1024 (length content - nat total_read)
      then do {
        (es, k', sent') \<leftarrow> send_pending tx content k sent
               (wrap32 (total_read + int (min 1024 (length content - nat total_read))));
        (es', fin) \<leftarrow> read_send tx content k'
               (wrap32 (total_read + int (min 1024 (length content - nat total_read)))) sent';
        Some (es @ es', fin)
      }
      else Some ([], sent))"

declare read_send.simps [code]

text \<open>
  The read loop of the naive server. Its inner loop is
  \<^verbatim>\<open>while (sent < total_read) sent += send(connfd, new->response + total_read, bytes_read, 0)\<close>,
  after \<^verbatim>\<open>total_read\<close> has been advanced: it offers the \<^verbatim>\<open>bytes_read\<close> bytes that lie
  behind what has been read so far.
\<close>

partial_function (option) naive_send_pending ::
  "transport \<Rightarrow> nat \<Rightarrow> int \<Rightarrow> int \<Rightarrow> nat \<Rightarrow> (event list \<times> nat \<times> int) option" where
  "naive_send_pending tx k sent total_read bytes_read =
     (if sent < total_read
      then if total_read < 0 then None
           else do {
             (es, k', fin) \<leftarrow> naive_send_pending tx (k + 1)
                    (wrap32 (sent + tx k bytes_read)) total_read bytes_read;
             Some (Send (Unread (nat total_read) (nat (tx k bytes_read))) # es, k', fin)
           }
      else Some ([], k, sent))"

declare naive_send_pending.simps [code]

partial_function (option) naive_read_send ::
  "transport \<Rightarrow> string \<Rightarrow> nat \<Rightarrow> int \<Rightarrow> int \<Rightarrow> (event list \<times> int) option" where
  "naive_read_send tx content k total_read sent =
     (if total_read < 0 then None
      else if 0 < min 1024 (length content - nat total_read)
      then do {
        (es, k', sent') \<leftarrow> naive_send_pending tx k sent
               (wrap32 (total_read + int (min 1024 (length content - nat total_read))))
               (min 1024 (length content - nat total_read));
        (es', fin) \<leftarrow> naive_read_send tx content k'
               (wrap32 (total_read + int (min 1024 (length content - nat total_read)))) sent';
        Some (es @ es', fin)
      }
      else Some ([], sent))"

declare naive_read_send.simps [code]

text \<open>The handler of the deque server. \<open>m_node\<close> is what \<^verbatim>\<open>malloc\<close> returns inside
  \<^verbatim>\<open>enqueue\<close>, \<open>now\<close> the clock value stored as the access time of the new entry. On the
  miss path the five header sends are the calls 0 to 4.\<close>

definition dq_handler ::
  "transport \<Rightarrow> string option \<Rightarrow> string option \<Rightarrow> bool \<Rightarrow> bool \<Rightarrow> bool \<Rightarrow> addr option
     \<Rightarrow> timespec \<Rightarrow> server \<Rightarrow> (event list \<times> server) option" where
  "dq_handler tx request file m_new m_name m_resp m_node now s =
     (case request of
        None \<Rightarrow> Some ([Close], s)
      | Some fname \<Rightarrow> do {
          (found, s1) \<leftarrow> dq_search s fname;
          (case found of
             Some (node, r) \<Rightarrow> do {
               resp \<leftarrow> send_existing_http_response tx r;
               s2 \<leftarrow> put_down node s1;
               Some ([Lock_cache, Cache_search, Unlock_cache] @ resp
                     @ [Lock_cache, Cache_put_down, Unlock_cache, Close], s2)
             }
           | None \<Rightarrow>
               (case file of
                  None \<Rightarrow>
                    Some ([Lock_cache, Cache_search, Unlock_cache, Send Not_found,
                           Shutdown, Close], s1)
                | Some content \<Rightarrow>
                    if \<not> m_new
                    then Some ([Lock_cache, Cache_search, Unlock_cache, Shutdown, Close], s1)
                    else if \<not> m_name
                    then Some ([Lock_cache, Cache_search, Unlock_cache, Shutdown, Close], s1)
                    else if \<not> m_resp
                    then Some ([Lock_cache, Cache_search, Unlock_cache]
                               @ ok_headers (length content) @ [Close], s1)
                    else do {
                      (es, sent) \<leftarrow> read_send tx content 5 0 0;
                      s2 \<leftarrow> dq_enqueue m_node
                              \<lparr>filename = fname, response = content,
                               filesize = length content, access_time = now\<rparr> s1;
                      Some ([Lock_cache, Cache_search, Unlock_cache]
                            @ ok_headers (length content) @ es
                            @ [Lock_cache, Cache_enqueue, Unlock_cache,
                               Lock_log, Write_log fname sent, Unlock_log,
                               Shutdown, Close], s2)
                    }))
        })"

text \<open>The handler of the naive server. \<open>now_hit\<close> is the clock value \<^verbatim>\<open>search\<close> reads on a
  hit, \<open>now\<close> the one stored in a new entry.\<close>

definition naive_handler ::
  "transport \<Rightarrow> string option \<Rightarrow> string option \<Rightarrow> bool \<Rightarrow> bool \<Rightarrow> bool \<Rightarrow> timespec
     \<Rightarrow> timespec \<Rightarrow> PriorityQueue \<Rightarrow> (event list \<times> PriorityQueue) option" where
  "naive_handler tx request file m_new m_name m_resp now_hit now pq =
     (case request of
        None \<Rightarrow> Some ([Close], pq)
      | Some fname \<Rightarrow>
          (case pq_search now_hit pq fname of
             (Some p, pq1) \<Rightarrow> do {
               resp \<leftarrow> naive_send_existing_http_response tx (deref pq1 p);
               Some ([Lock_cache, Cache_search] @ resp @ [Unlock_cache, Close], pq1)
             }
           | (None, pq1) \<Rightarrow>
               (case file of
                  None \<Rightarrow>
                    Some ([Lock_cache, Cache_search, Unlock_cache, Send Not_found,
                           Shutdown, Close], pq1)
                | Some content \<Rightarrow>
                    if \<not> m_new
                    then Some ([Lock_cache, Cache_search, Unlock_cache, Shutdown, Close], pq1)
                    else if \<not> m_name
                    then Some ([Lock_cache, Cache_search, Unlock_cache, Shutdown, Close], pq1)
                    else if \<not> m_resp
                    then Some ([Lock_cache, Cache_search, Unlock_cache]
                               @ ok_headers (length content) @ [Close], pq1)
                    else do {
                      (es, sent) \<leftarrow> naive_read_send tx content 5 0 0;
                      Some ([Lock_cache, Cache_search, Unlock_cache]
                            @ ok_headers (length content) @ es
                            @ [Lock_cache, Cache_enqueue, Unlock_cache,
                               Lock_log, Write_log fname sent, Unlock_log,
                               Shutdown, Close],
                            pq_enqueue pq1
                              \<lparr>filename = fname, response = content,
                               filesize = length content, access_time = now\<rparr>)
                    })))"

text \<open>The bytes of files that the \<^verbatim>\<open>send\<close> calls of a list of events accepted, in order.\<close>

fun body_bytes :: "event list \<Rightarrow> string" where
  "body_bytes [] = []"
| "body_bytes (Send (Body b) # es) = b @ body_bytes es"
| "body_bytes (e # es) = body_bytes es"

text \<open>The events that are calls of \<^verbatim>\<open>send\<close>, and those that concern the cache or its mutex.\<close>

fun is_send :: "event \<Rightarrow> bool" where
  "is_send (Send m) = True"
| "is_send e = False"


section \<open>The cache mutex\<close>










section \<open>Properties of the array engine\<close>

lemma older_eq_refl: "older_eq a a"
  by (simp add: older_eq_def compare_timespec_def)

lemma older_eq_trans: "older_eq a b \<Longrightarrow> older_eq b c \<Longrightarrow> older_eq a c"
  by (auto simp: older_eq_def compare_timespec_def split: if_splits)

lemma older_eq_total: "older_eq a b \<or> older_eq b a"
  by (auto simp: older_eq_def compare_timespec_def split: if_splits)

lemma compare_less_iff: "compare_timespec a b = - 1 \<longleftrightarrow> \<not> older_eq b a"
  by (auto simp: older_eq_def compare_timespec_def split: if_splits)

lemma compare_less_older: "compare_timespec a b = - 1 \<Longrightarrow> older_eq a b"
  by (auto simp: older_eq_def compare_timespec_def split: if_splits)

lemma older_eq_LONG_MAX: "older_eq a \<lparr>tv_sec = LONG_MAX, tv_nsec = LONG_MAX\<rparr>"
proof -
  have "sint (w :: long) \<le> sint LONG_MAX" for w
    using sint_lt [of w] by (simp add: LONG_MAX_def)
  from this [of "tv_sec a"] this [of "tv_nsec a"] show ?thesis
    by (auto simp: older_eq_def compare_timespec_def)
qed

lemma newer_than_trans: "newer_than a b \<Longrightarrow> newer_than b c \<Longrightarrow> newer_than a c"
  unfolding newer_than_def by (blast intro: older_eq_trans)

lemma parent_newer_iff:
  "parent_newer pq \<longleftrightarrow>
     (\<forall>i. 0 < i \<and> i < length (items pq) \<longrightarrow> newer_than (items pq ! ((i - 1) div 2)) (items pq ! i))"
  by (auto simp: parent_newer_def list_all_iff newer_than_def)

lemma heapifyUp_length: "length (items (heapifyUp pq k)) = length (items pq)"
proof (induction pq k rule: heapifyUp.induct)
  case (1 pq index)
  then show ?case
    by (subst heapifyUp.simps) (simp add: swap_def)
qed

lemma heapifyUp_mset: "k < length (items pq) \<Longrightarrow> mset (items (heapifyUp pq k)) = mset (items pq)"
proof (induction pq k rule: heapifyUp.induct)
  case (1 pq index)
  show ?case
  proof (cases "index \<noteq> 0 \<and> compare_timespec (access_time (items pq ! ((index - 1) div 2)))
                            (access_time (items pq ! index)) = - 1")
    case True
    have p: "(index - 1) div 2 < length (items pq)" using "1.prems" by simp
    have "mset (items (heapifyUp (swap pq ((index - 1) div 2) index) ((index - 1) div 2)))
          = mset (items (swap pq ((index - 1) div 2) index))"
      using True p by (intro "1.IH") (simp_all add: swap_def)
    also have "\<dots> = mset (items pq)"
      using p "1.prems" by (simp add: swap_def mset_swap)
    finally show ?thesis using True by (subst heapifyUp.simps) simp
  next
    case False
    then show ?thesis by (subst heapifyUp.simps) auto
  qed
qed

lemma newer_except_swap:
  assumes ne: "newer_except xs k" and k: "0 < k" "k < length xs"
    and lt: "compare_timespec (access_time (xs ! ((k - 1) div 2))) (access_time (xs ! k)) = - 1"
  shows "newer_except (xs[(k - 1) div 2 := xs ! k, k := xs ! ((k - 1) div 2)]) ((k - 1) div 2)"
proof -
  define p where "p = (k - 1) div 2"
  define ys where "ys = xs[p := xs ! k, k := xs ! p]"
  have pk: "p < k" using k by (simp add: p_def)
  have ysk: "ys ! k = xs ! p" using k by (simp add: ys_def)
  have ysp: "ys ! p = xs ! k" using k pk by (simp add: ys_def)
  have ysj: "j \<noteq> p \<Longrightarrow> j \<noteq> k \<Longrightarrow> ys ! j = xs ! j" for j by (simp add: ys_def)
  have len: "length ys = length xs" by (simp add: ys_def)
  have A: "0 < i \<Longrightarrow> i < length xs \<Longrightarrow> i \<noteq> k \<Longrightarrow> newer_than (xs ! ((i - 1) div 2)) (xs ! i)" for i
    using ne by (simp add: newer_except_def)
  have B: "0 < i \<Longrightarrow> i < length xs \<Longrightarrow> (i - 1) div 2 = k \<Longrightarrow> newer_than (xs ! p) (xs ! i)" for i
    using ne k by (simp add: newer_except_def p_def)
  have kp: "newer_than (xs ! k) (xs ! p)"
    using lt by (simp add: newer_than_def p_def compare_less_older)
  have 1: "newer_than (ys ! ((i - 1) div 2)) (ys ! i)" if i: "0 < i" "i < length xs" "i \<noteq> p" for i
  proof -
    consider "i = k" | "i \<noteq> k" "(i - 1) div 2 = p" | "i \<noteq> k" "(i - 1) div 2 = k"
      | "i \<noteq> k" "(i - 1) div 2 \<noteq> p" "(i - 1) div 2 \<noteq> k" by blast
    then show ?thesis
    proof cases
      case 1
      then show ?thesis using kp ysk ysp by (simp add: p_def)
    next
      case 2
      then have "newer_than (xs ! p) (xs ! i)" using A [of i] i by simp
      with kp have "newer_than (xs ! k) (xs ! i)" by (rule newer_than_trans)
      then show ?thesis using 2 ysp ysj [of i] i by simp
    next
      case 3
      then have "i \<noteq> p" using pk i by auto
      then show ?thesis using 3 B [of i] i ysk ysj [of i] by simp
    next
      case 4
      then show ?thesis using A [of i] i ysj by simp
    qed
  qed
  have 2: "newer_than (ys ! ((p - 1) div 2)) (ys ! i)"
    if i: "0 < i" "i < length xs" "(i - 1) div 2 = p" "0 < p" for i
  proof -
    have pp: "(p - 1) div 2 < p" using i by simp
    then have yspp: "ys ! ((p - 1) div 2) = xs ! ((p - 1) div 2)" using pk ysj by simp
    have ppp: "newer_than (xs ! ((p - 1) div 2)) (xs ! p)"
      using A [of p] i pk k by simp
    show ?thesis
    proof (cases "i = k")
      case True
      then show ?thesis using ysk yspp ppp by simp
    next
      case False
      have "i \<noteq> p" using i by auto
      then have "ys ! i = xs ! i" using False ysj by simp
      moreover have "newer_than (xs ! p) (xs ! i)" using A [of i] i False by simp
      ultimately show ?thesis using ppp yspp newer_than_trans by metis
    qed
  qed
  show ?thesis
    unfolding newer_except_def p_def [symmetric] ys_def [symmetric] len using 1 2 by blast
qed

lemma heapifyUp_restores:
  "newer_except (items pq) k \<Longrightarrow> k < length (items pq) \<Longrightarrow> parent_newer (heapifyUp pq k)"
proof (induction pq k rule: heapifyUp.induct)
  case (1 pq index)
  show ?case
  proof (cases "index \<noteq> 0 \<and> compare_timespec (access_time (items pq ! ((index - 1) div 2)))
                            (access_time (items pq ! index)) = - 1")
    case True
    have "newer_except (items (swap pq ((index - 1) div 2) index)) ((index - 1) div 2)"
      using newer_except_swap [of "items pq" index] "1.prems" True by (simp add: swap_def)
    moreover have "(index - 1) div 2 < length (items (swap pq ((index - 1) div 2) index))"
      using "1.prems" by (simp add: swap_def)
    ultimately have "parent_newer (heapifyUp (swap pq ((index - 1) div 2) index) ((index - 1) div 2))"
      using True by (intro "1.IH") simp_all
    then show ?thesis using True by (subst heapifyUp.simps) simp
  next
    case False
    have "newer_than (items pq ! ((i - 1) div 2)) (items pq ! i)"
      if "0 < i" "i < length (items pq)" for i
    proof (cases "i = index")
      case True
      with False that have "older_eq (access_time (items pq ! index))
           (access_time (items pq ! ((index - 1) div 2)))"
        by (simp add: compare_less_iff)
      then show ?thesis using True by (simp add: newer_than_def)
    next
      case False
      then show ?thesis using "1.prems" that by (simp add: newer_except_def)
    qed
    then have "parent_newer pq" by (simp add: parent_newer_iff)
    then show ?thesis using False by (subst heapifyUp.simps) auto
  qed
qed

lemma parent_newer_empty: "parent_newer pq_empty"
  by (simp add: parent_newer_def pq_empty_def)

lemma enqueue_append_ordered:
  assumes "parent_newer pq"
  shows "parent_newer (heapifyUp (pq\<lparr>items := items pq @ [v]\<rparr>) (length (items pq)))"
proof (rule heapifyUp_restores)
  let ?xs = "items pq"
  have "newer_than ((?xs @ [v]) ! ((i - 1) div 2)) ((?xs @ [v]) ! i)"
    if "0 < i" "i < length ?xs" for i
  proof -
    have "(i - 1) div 2 < length ?xs" using that by auto
    then show ?thesis using assms that by (simp add: parent_newer_iff nth_append)
  qed
  moreover have "\<not> (0 < i \<and> i < length (?xs @ [v]) \<and> (i - 1) div 2 = length ?xs)" for i
    by auto
  moreover have "i < length (?xs @ [v]) \<and> i \<noteq> length ?xs \<longleftrightarrow> i < length ?xs" for i
    by auto
  ultimately have "newer_except (?xs @ [v]) (length ?xs)"
    unfolding newer_except_def by blast
  then show "newer_except (items (pq\<lparr>items := ?xs @ [v]\<rparr>)) (length ?xs)" by simp
qed simp

lemma overwrite_leaf_ordered:
  assumes "parent_newer pq" and m: "m < length (items pq)" "length (items pq) \<le> 2 * m + 1"
  shows "parent_newer (heapifyUp (pq\<lparr>items := (items pq)[m := v]\<rparr>) m)"
proof (rule heapifyUp_restores)
  let ?xs = "items pq"
  have leaf: "(i - 1) div 2 \<noteq> m" if "0 < i" "i < length ?xs" for i
    using that m by auto
  have 1: "newer_than (?xs[m := v] ! ((i - 1) div 2)) (?xs[m := v] ! i)"
    if "0 < i" "i < length ?xs" "i \<noteq> m" for i
    using assms(1) that leaf [of i] by (simp add: parent_newer_iff)
  have 2: "\<not> (0 < i \<and> i < length ?xs \<and> (i - 1) div 2 = m)" for i
    using leaf [of i] by blast
  have "newer_except (?xs[m := v]) m"
    unfolding newer_except_def length_list_update using 1 2 by blast
  then show "newer_except (items (pq\<lparr>items := ?xs[m := v]\<rparr>)) m" by simp
qed (use m in simp)

text \<open>The scan of the full branch.\<close>

lemma scan_invariant:
  assumes "older_eq (access_time (items pq ! snd acc)) (fst acc)"
    and "\<forall>j\<in>S. older_eq (fst acc) (access_time (items pq ! j))"
  shows "older_eq (access_time (items pq ! snd (foldl (scan_step pq) acc js)))
            (fst (foldl (scan_step pq) acc js))
       \<and> (\<forall>j \<in> S \<union> (\<lambda>i. length (items pq) - i - 1) ` set js.
            older_eq (fst (foldl (scan_step pq) acc js)) (access_time (items pq ! j)))
       \<and> (snd (foldl (scan_step pq) acc js) = snd acc
            \<or> snd (foldl (scan_step pq) acc js) \<in> (\<lambda>i. length (items pq) - i - 1) ` set js)"
  using assms
proof (induction js arbitrary: acc S)
  case Nil
  then show ?case by simp
next
  case (Cons i js)
  let ?j = "length (items pq) - i - 1"
  let ?acc = "scan_step pq acc i"
  have a: "older_eq (access_time (items pq ! snd ?acc)) (fst ?acc)"
    using Cons.prems(1) by (simp add: scan_step_def older_eq_refl)
  have b: "\<forall>j\<in>insert ?j S. older_eq (fst ?acc) (access_time (items pq ! j))"
  proof (cases "compare_timespec (access_time (items pq ! ?j)) (fst acc) = - 1")
    case True
    then have "older_eq (access_time (items pq ! ?j)) (fst acc)" by (rule compare_less_older)
    then have "\<forall>j\<in>S. older_eq (access_time (items pq ! ?j)) (access_time (items pq ! j))"
      using Cons.prems(2) by (blast intro: older_eq_trans)
    then show ?thesis using True by (simp add: scan_step_def older_eq_refl)
  next
    case False
    then have "older_eq (fst acc) (access_time (items pq ! ?j))"
      by (simp add: compare_less_iff)
    then show ?thesis using False Cons.prems(2) by (auto simp: scan_step_def)
  qed
  have c: "snd ?acc = snd acc \<or> snd ?acc = ?j" by (simp add: scan_step_def)
  from Cons.IH [OF a b] c show ?case by auto
qed

lemma min_index_full:
  assumes "length (items pq) = MAX_items"
  shows "min_index pq \<in> {2, 3, 4}"
    and "\<forall>j\<in>{2, 3, 4}. older_eq (access_time (items pq ! min_index pq)) (access_time (items pq ! j))"
proof -
  let ?init = "(\<lparr>tv_sec = LONG_MAX, tv_nsec = LONG_MAX\<rparr>, MAX_items - 1)"
  let ?r = "foldl (scan_step pq) ?init [0 ..< length (items pq) div 2 + 1]"
  have img: "(\<lambda>i. length (items pq) - i - 1) ` set [0 ..< length (items pq) div 2 + 1] = {2, 3, 4}"
  proof -
    have "[0 ..< (5::nat) div 2 + 1] = [0, 1, 2]" by (simp add: upt_rec)
    moreover have "(\<lambda>i. (5::nat) - i - 1) ` set [0, 1, 2] = {2, 3, 4}" by auto
    ultimately show ?thesis using assms by (simp add: MAX_items_def)
  qed
  have "older_eq (access_time (items pq ! snd ?init)) (fst ?init)"
    by (simp add: older_eq_LONG_MAX)
  moreover have "\<forall>j\<in>{}. older_eq (fst ?init) (access_time (items pq ! j))" by simp
  ultimately have inv:
    "older_eq (access_time (items pq ! snd ?r)) (fst ?r)
     \<and> (\<forall>j \<in> {} \<union> (\<lambda>i. length (items pq) - i - 1) ` set [0 ..< length (items pq) div 2 + 1].
            older_eq (fst ?r) (access_time (items pq ! j)))
     \<and> (snd ?r = snd ?init \<or> snd ?r \<in> (\<lambda>i. length (items pq) - i - 1) ` set [0 ..< length (items pq) div 2 + 1])"
    by (rule scan_invariant)
  have r: "min_index pq = snd ?r" by (simp add: min_index_def)
  from inv show "min_index pq \<in> {2, 3, 4}"
    unfolding r img by (auto simp: MAX_items_def)
  from inv show "\<forall>j\<in>{2, 3, 4}. older_eq (access_time (items pq ! min_index pq)) (access_time (items pq ! j))"
    unfolding r img by (blast intro: older_eq_trans)
qed

lemma pq_enqueue_ordered: "parent_newer pq \<Longrightarrow> parent_newer (pq_enqueue pq v)"
proof -
  assume ord: "parent_newer pq"
  show ?thesis
  proof (cases "length (items pq) = MAX_items")
    case True
    from min_index_full(1) [OF True] have "min_index pq < length (items pq)"
      "length (items pq) \<le> 2 * min_index pq + 1"
      using True by (auto simp: MAX_items_def)
    with ord show ?thesis using True by (simp add: pq_enqueue_def overwrite_leaf_ordered)
  next
    case False
    with ord show ?thesis by (simp add: pq_enqueue_def enqueue_append_ordered)
  qed
qed

lemma min_index_oldest:
  assumes len: "length (items pq) = MAX_items" and ord: "parent_newer pq"
  shows "\<forall>e\<in>set (items pq). older_eq (access_time (items pq ! min_index pq)) (access_time e)"
proof -
  let ?t = "\<lambda>i. access_time (items pq ! i)"
  have leaves: "older_eq (?t (min_index pq)) (?t 2)" "older_eq (?t (min_index pq)) (?t 3)"
    "older_eq (?t (min_index pq)) (?t 4)"
    using min_index_full(2) [OF len] by simp_all
  have par: "0 < i \<Longrightarrow> i < 5 \<Longrightarrow> older_eq (?t i) (?t ((i - 1) div 2))" for i
    using ord len by (simp add: parent_newer_iff newer_than_def MAX_items_def)
  have up: "older_eq (?t 3) (?t 1)" "older_eq (?t 1) (?t 0)"
    using par [of 3] par [of 1] by simp_all
  have 1: "older_eq (?t (min_index pq)) (?t 1)" using leaves(2) up(1) by (rule older_eq_trans)
  have 0: "older_eq (?t (min_index pq)) (?t 0)" using 1 up(2) by (rule older_eq_trans)
  have "older_eq (?t (min_index pq)) (?t i)" if "i < 5" for i
  proof -
    from that consider "i = 0" | "i = 1" | "i = 2" | "i = 3" | "i = 4" by linarith
    then show ?thesis using 0 1 leaves by cases simp_all
  qed
  then have *: "i < length (items pq) \<Longrightarrow> older_eq (?t (min_index pq)) (?t i)" for i
    using len by (simp add: MAX_items_def)
  show ?thesis
  proof
    fix e
    assume "e \<in> set (items pq)"
    then obtain i where "i < length (items pq)" "items pq ! i = e"
      by (auto simp: in_set_conv_nth)
    with * show "older_eq (?t (min_index pq)) (access_time e)" by auto
  qed
qed

lemma root_newest:
  "parent_newer pq \<Longrightarrow> i < length (items pq) \<Longrightarrow> newer_than (items pq ! 0) (items pq ! i)"
proof (induction i rule: less_induct)
  case (less i)
  show ?case
  proof (cases "i = 0")
    case True
    then show ?thesis by (simp add: newer_than_def older_eq_refl)
  next
    case False
    then have p: "(i - 1) div 2 < i" by simp
    then have "newer_than (items pq ! 0) (items pq ! ((i - 1) div 2))"
      using less.IH [of "(i - 1) div 2"] less.prems by simp
    moreover have "newer_than (items pq ! ((i - 1) div 2)) (items pq ! i)"
      using less.prems False by (simp add: parent_newer_iff)
    ultimately show ?thesis by (rule newer_than_trans)
  qed
qed

lemma search_loop_miss:
  "\<forall>j. i \<le> j \<and> j < length (items pq) \<longrightarrow> filename (items pq ! j) \<noteq> target
   \<Longrightarrow> search_loop now pq target i = (None, pq)"
proof (induction now pq target i rule: search_loop.induct)
  case (1 now pq target i)
  show ?case
  proof (cases "i < length (items pq)")
    case True
    then have ne: "filename (items pq ! i) \<noteq> target" using "1.prems" by simp
    have "search_loop now pq target (i + 1) = (None, pq)"
      using True ne "1.prems" by (intro "1.IH") simp_all
    then show ?thesis using True ne by (subst search_loop.simps) simp
  next
    case False
    then show ?thesis by (subst search_loop.simps) simp
  qed
qed

lemma search_loop_hit:
  "i \<le> k \<Longrightarrow> k < length (items pq) \<Longrightarrow> filename (items pq ! k) = target
   \<Longrightarrow> \<forall>j. i \<le> j \<and> j < k \<longrightarrow> filename (items pq ! j) \<noteq> target
   \<Longrightarrow> search_loop now pq target i =
        (Some k, heapifyUp (pq\<lparr>items := (items pq)[k := (items pq ! k)\<lparr>access_time := now\<rparr>]\<rparr>) k)"
proof (induction now pq target i rule: search_loop.induct)
  case (1 now pq target i)
  show ?case
  proof (cases "i = k")
    case True
    then show ?thesis using "1.prems" by (subst search_loop.simps) simp
  next
    case False
    then have ne: "filename (items pq ! i) \<noteq> target" and lt: "i < length (items pq)"
      using "1.prems" by simp_all
    have "search_loop now pq target (i + 1) =
        (Some k, heapifyUp (pq\<lparr>items := (items pq)[k := (items pq ! k)\<lparr>access_time := now\<rparr>]\<rparr>) k)"
      using False ne lt "1.prems" by (intro "1.IH") simp_all
    then show ?thesis using ne lt by (subst search_loop.simps) simp
  qed
qed

lemma first_match_exists:
  assumes "target \<in> filename ` set xs"
  shows "\<exists>k<length xs. filename (xs ! k) = target \<and> (\<forall>j<k. filename (xs ! j) \<noteq> target)"
proof -
  let ?P = "\<lambda>k. k < length xs \<and> filename (xs ! k) = target"
  from assms obtain k0 where "?P k0" by (auto simp: in_set_conv_nth)
  define m where "m = (LEAST k. ?P k)"
  from \<open>?P k0\<close> have m: "?P m" unfolding m_def by (rule LeastI)
  have "filename (xs ! j) \<noteq> target" if "j < m" for j
  proof -
    have "\<not> ?P j" using that unfolding m_def by (rule not_less_Least)
    moreover have "j < length xs" using that m by simp
    ultimately show ?thesis by simp
  qed
  with m show ?thesis by (intro exI [of _ m]) simp
qed

lemma pq_search_miss:
  "target \<notin> filename ` set (items pq) \<Longrightarrow> pq_search now pq target = (None, pq)"
  unfolding pq_search_def by (rule search_loop_miss) auto

lemma pq_search_hit:
  assumes "target \<in> filename ` set (items pq)"
  shows "\<exists>k<length (items pq). filename (items pq ! k) = target
           \<and> (\<forall>j<k. filename (items pq ! j) \<noteq> target)
           \<and> pq_search now pq target =
               (Some k, heapifyUp (pq\<lparr>items := (items pq)[k := (items pq ! k)\<lparr>access_time := now\<rparr>]\<rparr>) k)"
proof -
  from first_match_exists [OF assms] obtain k where k: "k < length (items pq)"
    "filename (items pq ! k) = target" "\<forall>j<k. filename (items pq ! j) \<noteq> target" by blast
  then have "search_loop now pq target 0 =
      (Some k, heapifyUp (pq\<lparr>items := (items pq)[k := (items pq ! k)\<lparr>access_time := now\<rparr>]\<rparr>) k)"
    by (intro search_loop_hit) simp_all
  with k show ?thesis unfolding pq_search_def by blast
qed

lemma pq_search_filenames:
  "mset (map filename (items (snd (pq_search now pq target)))) = mset (map filename (items pq))"
proof (cases "target \<in> filename ` set (items pq)")
  case True
  from pq_search_hit [OF True, of now] obtain k where k: "k < length (items pq)"
    and r: "pq_search now pq target =
      (Some k, heapifyUp (pq\<lparr>items := (items pq)[k := (items pq ! k)\<lparr>access_time := now\<rparr>]\<rparr>) k)"
    by blast
  let ?xs = "(items pq)[k := (items pq ! k)\<lparr>access_time := now\<rparr>]"
  have "mset (items (snd (pq_search now pq target))) = mset ?xs"
    using k by (simp add: r heapifyUp_mset)
  then have "mset (map filename (items (snd (pq_search now pq target)))) = mset (map filename ?xs)"
    by (metis mset_map)
  also have "map filename ?xs = map filename (items pq)"
    using k by (simp add: map_update list_update_same_conv)
  finally show ?thesis .
next
  case False
  then show ?thesis by (simp add: pq_search_miss)
qed

lemma pq_search_None_iff:
  "fst (pq_search now pq target) = None \<longleftrightarrow> target \<notin> filename ` set (items pq)"
proof
  assume "fst (pq_search now pq target) = None"
  show "target \<notin> filename ` set (items pq)"
  proof (rule ccontr)
    assume "\<not> target \<notin> filename ` set (items pq)"
    then have "target \<in> filename ` set (items pq)" by simp
    from pq_search_hit [OF this, of now] obtain k where "fst (pq_search now pq target) = Some k"
      by force
    with \<open>fst (pq_search now pq target) = None\<close> show False by simp
  qed
qed (simp add: pq_search_miss)

lemma pq_search_ordered:
  assumes ord: "parent_newer pq"
    and now: "\<forall>e\<in>set (items pq). older_eq (access_time e) now"
  shows "parent_newer (snd (pq_search now pq target))"
proof (cases "target \<in> filename ` set (items pq)")
  case True
  from pq_search_hit [OF True, of now] obtain k where k: "k < length (items pq)"
    and r: "pq_search now pq target =
      (Some k, heapifyUp (pq\<lparr>items := (items pq)[k := (items pq ! k)\<lparr>access_time := now\<rparr>]\<rparr>) k)"
    by blast
  let ?xs = "items pq"
  let ?ys = "?xs[k := (?xs ! k)\<lparr>access_time := now\<rparr>]"
  have A: "0 < i \<Longrightarrow> i < length ?xs \<Longrightarrow> newer_than (?xs ! ((i - 1) div 2)) (?xs ! i)" for i
    using ord by (simp add: parent_newer_iff)
  have N: "i < length ?xs \<Longrightarrow> newer_than (?ys ! k) (?xs ! i)" for i
    using now k by (simp add: newer_than_def)
  have 1: "newer_than (?ys ! ((i - 1) div 2)) (?ys ! i)" if i: "0 < i" "i < length ?xs" "i \<noteq> k" for i
  proof (cases "(i - 1) div 2 = k")
    case True
    then show ?thesis using N [of i] i by simp
  next
    case False
    then show ?thesis using A [of i] i by simp
  qed
  have 2: "newer_than (?ys ! ((k - 1) div 2)) (?ys ! i)"
    if i: "0 < i" "i < length ?xs" "(i - 1) div 2 = k" "0 < k" for i
  proof -
    have "newer_than (?xs ! ((k - 1) div 2)) (?xs ! k)" using A [of k] k i by simp
    moreover have "newer_than (?xs ! k) (?xs ! i)" using A [of i] i by simp
    ultimately have "newer_than (?xs ! ((k - 1) div 2)) (?xs ! i)" by (rule newer_than_trans)
    moreover have "(k - 1) div 2 \<noteq> k" "i \<noteq> k" using i by auto
    ultimately show ?thesis by simp
  qed
  have "newer_except ?ys k"
    unfolding newer_except_def length_list_update using 1 2 by blast
  then have "parent_newer (heapifyUp (pq\<lparr>items := ?ys\<rparr>) k)"
    using k by (intro heapifyUp_restores) simp_all
  then show ?thesis by (simp add: r)
next
  case False
  then show ?thesis using ord by (simp add: pq_search_miss)
qed

lemma pq_run_ordered:
  "parent_newer pq \<Longrightarrow> clock_ok pq ops \<Longrightarrow> parent_newer (pq_run pq ops)"
proof (induction pq ops rule: pq_run.induct)
  case (1 pq)
  then show ?case by simp
next
  case (2 pq v ops)
  then show ?case by (simp add: pq_enqueue_ordered)
next
  case (3 pq now target ops)
  then show ?case by (simp add: pq_search_ordered list_all_iff)
qed

subsection \<open>C2: the heap ordering of the array\<close>

text \<open>
  C2, as stated: after every insert and every hit promotion the access time of the
  parent slot \<open>(i - 1) div 2\<close> is not later than that of the child slot \<open>i\<close>. It fails:
  \<^verbatim>\<open>heapifyUp\<close> exchanges parent and child when the parent is the older one, so after
  inserting a key with time 1 and then a key with time 2 the root holds time 2 and its
  child time 1.
\<close>

theorem heap_order_counterexample:
  "\<not> parent_older (pq_enqueue (pq_enqueue pq_empty (entry ''a'' ''AAA'' 1)) (entry ''b'' ''BBB'' 2))"
  by (simp add: parent_older_def pq_enqueue_def pq_empty_def MAX_items_def entry_def
      heapifyUp.simps swap_def compare_timespec_def older_eq_def)

text \<open>
  C2, amended: starting from the empty queue, after every insert and after every lookup
  whose clock value is not older than the access times stored at that moment, the
  ordering is the reverse one: the access time of every child slot is not later than
  that of its parent slot, so slot 0 holds an entry with the latest access time of all.
\<close>

theorem heap_order_maintained:
  "clock_ok pq_empty ops \<Longrightarrow>
     parent_newer (pq_run pq_empty ops)
     \<and> (\<forall>e \<in> set (items (pq_run pq_empty ops)).
           older_eq (access_time e) (access_time (items (pq_run pq_empty ops) ! 0)))"
proof -
  assume "clock_ok pq_empty ops"
  then have ord: "parent_newer (pq_run pq_empty ops)"
    by (simp add: pq_run_ordered parent_newer_empty)
  have "older_eq (access_time e) (access_time (items (pq_run pq_empty ops) ! 0))"
    if "e \<in> set (items (pq_run pq_empty ops))" for e
  proof -
    from that obtain i where "i < length (items (pq_run pq_empty ops))"
      "items (pq_run pq_empty ops) ! i = e" by (auto simp: in_set_conv_nth)
    then show ?thesis using root_newest [OF ord, of i] by (simp add: newer_than_def)
  qed
  with ord show ?thesis by blast
qed

theorem heap_order_maintained_witness:
  "clock_ok pq_empty
     [Enq (entry ''a'' ''AAA'' 1), Enq (entry ''b'' ''BBB'' 2),
      Srch \<lparr>tv_sec = 10, tv_nsec = 0\<rparr> ''a'']
   \<and> parent_newer (pq_run pq_empty
       [Enq (entry ''a'' ''AAA'' 1), Enq (entry ''b'' ''BBB'' 2),
        Srch \<lparr>tv_sec = 10, tv_nsec = 0\<rparr> ''a''])
   \<and> list_all
        (\<lambda>e. older_eq (access_time e) (access_time (items (pq_run pq_empty
          [Enq (entry ''a'' ''AAA'' 1), Enq (entry ''b'' ''BBB'' 2),
           Srch \<lparr>tv_sec = 10, tv_nsec = 0\<rparr> ''a'']) ! 0)))
        (items (pq_run pq_empty
          [Enq (entry ''a'' ''AAA'' 1), Enq (entry ''b'' ''BBB'' 2),
           Srch \<lparr>tv_sec = 10, tv_nsec = 0\<rparr> ''a'']))"
proof -
  have h: "clock_ok pq_empty
     [Enq (entry ''a'' ''AAA'' 1), Enq (entry ''b'' ''BBB'' 2),
      Srch \<lparr>tv_sec = 10, tv_nsec = 0\<rparr> ''a'']"
    by (simp add: pq_enqueue_def pq_empty_def MAX_items_def entry_def
        heapifyUp.simps swap_def compare_timespec_def older_eq_def)
  from heap_order_maintained [OF h] h show ?thesis unfolding list_all_iff by blast
qed

subsection \<open>C10: a lookup that misses changes nothing\<close>

text \<open>
  C10: when no stored entry has the requested filename, \<^verbatim>\<open>search\<close> returns \<^verbatim>\<open>NULL\<close> and
  the queue afterwards is the queue before: same size, same slots, same access times.
  Hence a lookup that changes the queue is a hit.
\<close>

theorem pq_search_miss_frame:
  "target \<notin> filename ` set (items pq) \<Longrightarrow> pq_search now pq target = (None, pq)"
  by (rule pq_search_miss)

theorem pq_search_miss_frame_witness:
  "''c'' \<notin> filename ` set (items
      (pq_enqueue (pq_enqueue pq_empty (entry ''a'' ''AAA'' 1)) (entry ''b'' ''BBB'' 2)))
   \<and> pq_search \<lparr>tv_sec = 10, tv_nsec = 0\<rparr>
        (pq_enqueue (pq_enqueue pq_empty (entry ''a'' ''AAA'' 1)) (entry ''b'' ''BBB'' 2)) ''c''
      = (None, pq_enqueue (pq_enqueue pq_empty (entry ''a'' ''AAA'' 1)) (entry ''b'' ''BBB'' 2))"
proof -
  have h: "''c'' \<notin> filename ` set (items
      (pq_enqueue (pq_enqueue pq_empty (entry ''a'' ''AAA'' 1)) (entry ''b'' ''BBB'' 2)))"
    by (simp add: pq_enqueue_def pq_empty_def MAX_items_def entry_def
        heapifyUp.simps swap_def compare_timespec_def)
  from pq_search_miss_frame [OF h] h show ?thesis by blast
qed

lemma pq_enqueue_length:
  "length (items (pq_enqueue pq v)) =
     (if length (items pq) = MAX_items then MAX_items else length (items pq) + 1)"
  by (simp add: pq_enqueue_def heapifyUp_length)

lemma pq_enqueue_append_mset:
  "length (items pq) \<noteq> MAX_items \<Longrightarrow> mset (items (pq_enqueue pq v)) = add_mset v (mset (items pq))"
  by (simp add: pq_enqueue_def heapifyUp_mset)

lemma min_index_less: "length (items pq) = MAX_items \<Longrightarrow> min_index pq < length (items pq)"
  using min_index_full(1) [of pq] by (auto simp: MAX_items_def)

lemma pq_enqueue_full_mset:
  assumes "length (items pq) = MAX_items"
  shows "mset (items (pq_enqueue pq v)) = add_mset v (mset (items pq) - {#evicted pq#})"
proof -
  have m: "min_index pq < length (items pq)" using assms by (rule min_index_less)
  then show ?thesis using assms
    by (simp add: pq_enqueue_def heapifyUp_mset mset_update evicted_def)
qed

lemma evicted_in: "length (items pq) = MAX_items \<Longrightarrow> evicted pq \<in> set (items pq)"
  unfolding evicted_def by (rule nth_mem) (rule min_index_less)

lemma pq_run_Enq_append: "pq_run pq (ops @ [Enq v]) = pq_enqueue (pq_run pq ops) v"
  by (induction pq ops rule: pq_run.induct) simp_all

lemma clock_ok_Enq: "clock_ok pq (map Enq vs)"
  by (induction vs arbitrary: pq) simp_all

lemma pq_run_Enq_length:
  "length (items pq) + length vs \<le> MAX_items \<Longrightarrow>
     mset (items (pq_run pq (map Enq vs))) = mset (items pq) + mset vs
     \<and> length (items (pq_run pq (map Enq vs))) = length (items pq) + length vs"
proof (induction vs arbitrary: pq)
  case Nil
  then show ?case by simp
next
  case (Cons v vs)
  then have ne: "length (items pq) \<noteq> MAX_items" by simp
  then have "length (items (pq_enqueue pq v)) + length vs \<le> MAX_items"
    using Cons.prems by (simp add: pq_enqueue_length)
  from Cons.IH [OF this] show ?case using ne
    by (simp add: pq_enqueue_length pq_enqueue_append_mset)
qed


subsection \<open>C4: five inserts, then a sixth\<close>

text \<open>
  C4: starting from the empty queue, after inserting entries with the keys a, b, c, d, e
  the queue holds all five; inserting an entry with key f frees exactly one of the five,
  one whose access time is not later than that of any of the five, and puts f in its
  place; afterwards a lookup of f hits and a lookup of the freed key misses (directly,
  and also after the lookup of f).
\<close>

theorem five_then_six:
  assumes keys: "map filename [ea, eb, ec, ed, ee, ef] = [''a'', ''b'', ''c'', ''d'', ''e'', ''f'']"
  shows "let pq5 = pq_run pq_empty (map Enq [ea, eb, ec, ed, ee]);
             pq6 = pq_enqueue pq5 ef;
             ev = evicted pq5
         in length (items pq5) = 5
          \<and> mset (items pq5) = {#ea, eb, ec, ed, ee#}
          \<and> ev \<in> {ea, eb, ec, ed, ee}
          \<and> (\<forall>x \<in> {ea, eb, ec, ed, ee}. older_eq (access_time ev) (access_time x))
          \<and> length (items pq6) = 5
          \<and> mset (items pq6) = add_mset ef ({#ea, eb, ec, ed, ee#} - {#ev#})
          \<and> fst (pq_search now pq6 ''f'') \<noteq> None
          \<and> fst (pq_search now pq6 (filename ev)) = None
          \<and> fst (pq_search now' (snd (pq_search now pq6 ''f'')) (filename ev)) = None"
proof -
  define pq5 where "pq5 = pq_run pq_empty (map Enq [ea, eb, ec, ed, ee])"
  define pq6 where "pq6 = pq_enqueue pq5 ef"
  define ev where "ev = evicted pq5"
  have "length (items pq_empty) + length [ea, eb, ec, ed, ee] \<le> MAX_items"
    by (simp add: pq_empty_def MAX_items_def)
  from pq_run_Enq_length [OF this]
  have m5: "mset (items pq5) = {#ea, eb, ec, ed, ee#}" and l5: "length (items pq5) = 5"
    by (simp_all add: pq5_def pq_empty_def)
  have full: "length (items pq5) = MAX_items" using l5 by (simp add: MAX_items_def)
  have set5: "set (items pq5) = {ea, eb, ec, ed, ee}"
    using m5 by (metis mset_eq_setD set_mset_mset set_mset_add_mset_insert set_mset_empty)
  have ord: "parent_newer pq5"
    unfolding pq5_def by (intro pq_run_ordered parent_newer_empty clock_ok_Enq)
  have ev_in: "ev \<in> {ea, eb, ec, ed, ee}"
    using evicted_in [OF full] set5 by (simp add: ev_def)
  have oldest: "\<forall>x \<in> {ea, eb, ec, ed, ee}. older_eq (access_time ev) (access_time x)"
    using min_index_oldest [OF full ord] set5 by (simp add: ev_def evicted_def)
  have l6: "length (items pq6) = 5"
    using full by (simp add: pq6_def pq_enqueue_length MAX_items_def)
  have m6: "mset (items pq6) = add_mset ef ({#ea, eb, ec, ed, ee#} - {#ev#})"
    using pq_enqueue_full_mset [OF full, of ef] by (simp add: pq6_def ev_def m5)
  have f_in: "''f'' \<in> filename ` set (items pq6)"
  proof -
    have "ef \<in># mset (items pq6)" unfolding m6 by simp
    then have "ef \<in> set (items pq6)" by simp
    moreover have "filename ef = ''f''" using keys by simp
    ultimately show ?thesis by force
  qed
  have ev_out: "filename ev \<notin> filename ` set (items pq6)"
  proof -
    have "set (items pq6) = set_mset (add_mset ef ({#ea, eb, ec, ed, ee#} - {#ev#}))"
      using m6 by (metis set_mset_mset)
    then show ?thesis using ev_in keys by auto
  qed
  have hit: "fst (pq_search now pq6 ''f'') \<noteq> None"
    using f_in by (simp add: pq_search_None_iff)
  have miss: "fst (pq_search now pq6 (filename ev)) = None"
    using ev_out by (simp add: pq_search_None_iff)
  have "set (map filename (items (snd (pq_search now pq6 ''f'')))) = set (map filename (items pq6))"
    using pq_search_filenames [of now pq6 "''f''"] by (metis set_mset_mset)
  then have "filename ev \<notin> filename ` set (items (snd (pq_search now pq6 ''f'')))"
    using ev_out by simp
  then have miss': "fst (pq_search now' (snd (pq_search now pq6 ''f'')) (filename ev)) = None"
    by (simp add: pq_search_None_iff)
  show ?thesis
    unfolding Let_def pq5_def [symmetric] pq6_def [symmetric] ev_def [symmetric]
    using l5 m5 ev_in oldest l6 m6 hit miss miss' by blast
qed


theorem five_then_six_witness:
  "map filename [entry ''a'' ''A'' 3, entry ''b'' ''B'' 1, entry ''c'' ''C'' 4,
                 entry ''d'' ''D'' 2, entry ''e'' ''E'' 5, entry ''f'' ''F'' 9]
     = [''a'', ''b'', ''c'', ''d'', ''e'', ''f'']
   \<and> length (items (pq_run pq_empty (map Enq
        [entry ''a'' ''A'' 3, entry ''b'' ''B'' 1, entry ''c'' ''C'' 4,
         entry ''d'' ''D'' 2, entry ''e'' ''E'' 5]))) = 5
   \<and> fst (pq_search \<lparr>tv_sec = 10, tv_nsec = 0\<rparr>
        (pq_enqueue (pq_run pq_empty (map Enq
           [entry ''a'' ''A'' 3, entry ''b'' ''B'' 1, entry ''c'' ''C'' 4,
            entry ''d'' ''D'' 2, entry ''e'' ''E'' 5])) (entry ''f'' ''F'' 9)) ''f'') \<noteq> None
   \<and> fst (pq_search \<lparr>tv_sec = 10, tv_nsec = 0\<rparr>
        (pq_enqueue (pq_run pq_empty (map Enq
           [entry ''a'' ''A'' 3, entry ''b'' ''B'' 1, entry ''c'' ''C'' 4,
            entry ''d'' ''D'' 2, entry ''e'' ''E'' 5])) (entry ''f'' ''F'' 9))
        (filename (evicted (pq_run pq_empty (map Enq
           [entry ''a'' ''A'' 3, entry ''b'' ''B'' 1, entry ''c'' ''C'' 4,
            entry ''d'' ''D'' 2, entry ''e'' ''E'' 5]))))) = None"
proof -
  have h: "map filename [entry ''a'' ''A'' 3, entry ''b'' ''B'' 1, entry ''c'' ''C'' 4,
                 entry ''d'' ''D'' 2, entry ''e'' ''E'' 5, entry ''f'' ''F'' 9]
     = [''a'', ''b'', ''c'', ''d'', ''e'', ''f'']"
    by (simp add: entry_def)
  from five_then_six [OF h, of "\<lparr>tv_sec = 10, tv_nsec = 0\<rparr>" "\<lparr>tv_sec = 10, tv_nsec = 0\<rparr>"] h
  show ?thesis unfolding Let_def by blast
qed

subsection \<open>C6: the payload a hit exposes\<close>

text \<open>
  C6 in the array engine: \<^verbatim>\<open>search\<close> takes the pointer of the matching slot and then calls
  \<^verbatim>\<open>heapifyUp\<close>, which exchanges the structs behind the pointers. With a (payload AAA,
  time 5) in slot 0 and b (payload BBB, time 3) in slot 1, a lookup of b at time 10
  returns the pointer of slot 1, behind which a's struct now lies: the caller reads
  the payload AAA. A second lookup of b, at time 11, finds b in slot 0 and exposes BBB.
\<close>

theorem pq_hit_returns_other_payload:
  "fst (pq_search \<lparr>tv_sec = 10, tv_nsec = 0\<rparr> two_slots ''b'') = Some 1
   \<and> deref (snd (pq_search \<lparr>tv_sec = 10, tv_nsec = 0\<rparr> two_slots ''b'')) 1 = entry ''a'' ''AAA'' 5
   \<and> fst (pq_search \<lparr>tv_sec = 11, tv_nsec = 0\<rparr>
          (snd (pq_search \<lparr>tv_sec = 10, tv_nsec = 0\<rparr> two_slots ''b'')) ''b'') = Some 0
   \<and> response (deref (snd (pq_search \<lparr>tv_sec = 11, tv_nsec = 0\<rparr>
          (snd (pq_search \<lparr>tv_sec = 10, tv_nsec = 0\<rparr> two_slots ''b'')) ''b'')) 0) = ''BBB''"
  by (simp add: two_slots_def pq_enqueue_def pq_empty_def MAX_items_def entry_def
      heapifyUp.simps swap_def compare_timespec_def pq_search_def search_loop.simps deref_def)


section \<open>Properties of the deque engine\<close>

lemma chain_frame:
  "(\<And>a. a \<in> set as \<Longrightarrow> m' a = m a) \<Longrightarrow> chain m' prv as p = chain m prv as p"
proof (induction as arbitrary: prv p)
  case Nil
  then show ?case by simp
next
  case (Cons a as)
  have "m' a = m a" using Cons.prems by simp
  moreover have "chain m' q as r = chain m q as r" for q r
    using Cons.prems by (intro Cons.IH) simp
  ultimately show ?case by (simp split: option.splits)
qed

lemma chain_allocated: "chain m prv as p \<Longrightarrow> a \<in> set as \<Longrightarrow> \<exists>n. m a = Some n \<and> valid n = 1"
proof (induction as arbitrary: prv p)
  case Nil
  then show ?case by simp
next
  case (Cons b as)
  then show ?case by (auto split: option.splits)
qed

lemma chain_snoc:
  "chain m prv (bs @ [old]) p \<Longrightarrow> bs \<noteq> [] \<Longrightarrow>
     \<exists>tn on. m (last bs) = Some tn \<and> next_node tn = Some old \<and> m old = Some on
           \<and> prev_node on = Some (last bs) \<and> next_node on = None \<and> valid on = 1"
proof (induction bs arbitrary: prv p)
  case Nil
  then show ?case by simp
next
  case (Cons b bs)
  show ?case
  proof (cases "bs = []")
    case True
    then show ?thesis using Cons.prems by (auto split: option.splits)
  next
    case False
    from Cons.prems obtain n where n: "m b = Some n" "chain m (Some b) (bs @ [old]) (next_node n)"
      by (auto split: option.splits)
    from Cons.IH [OF n(2) False] show ?thesis using False by simp
  qed
qed

lemma chain_drop_last:
  assumes "chain m prv (bs @ [old]) p" "bs \<noteq> []" "distinct (bs @ [old])"
    and "m (last bs) = Some tn"
  shows "chain (m(last bs \<mapsto> tn\<lparr>next_node := None\<rparr>, old \<mapsto> on')) prv bs p"
  using assms
proof (induction bs arbitrary: prv p)
  case Nil
  then show ?case by simp
next
  case (Cons b bs)
  show ?case
  proof (cases "bs = []")
    case True
    then show ?thesis using Cons.prems by (auto split: option.splits)
  next
    case False
    from Cons.prems obtain n where n: "m b = Some n" "valid n = 1" "prev_node n = prv" "p = Some b"
      "chain m (Some b) (bs @ [old]) (next_node n)"
      by (auto split: option.splits)
    define M where "M = m(last bs \<mapsto> tn\<lparr>next_node := None\<rparr>, old \<mapsto> on')"
    have l: "last (b # bs) = last bs" using False by simp
    have "chain M (Some b) bs (next_node n)"
      unfolding M_def using n(5) False Cons.prems by (intro Cons.IH) simp_all
    moreover have "b \<noteq> last bs" "b \<noteq> old" using Cons.prems(3) False by auto
    then have "M b = Some n" using n(1) by (simp add: M_def)
    ultimately have "chain M prv (b # bs) p" using n by simp
    then show ?thesis unfolding l M_def .
  qed
qed


lemma remove_tail_result:
  assumes ch: "chain (mem s) None (bs @ [old]) (head (deck s))" and ne: "bs \<noteq> []"
    and d: "distinct (bs @ [old])" and tl: "tail (deck s) = Some old"
  shows "\<exists>tn on. mem s (last bs) = Some tn \<and> mem s old = Some on \<and>
           remove_tail s = Some (s\<lparr>mem := (mem s)(last bs \<mapsto> tn\<lparr>next_node := None\<rparr>,
                                                     old \<mapsto> on\<lparr>valid := 0\<rparr>),
                                    deck := (deck s)\<lparr>tail := Some (last bs)\<rparr>\<rparr>)"
proof -
  from chain_snoc [OF ch ne] obtain tn on where f: "mem s (last bs) = Some tn" "mem s old = Some on"
    "prev_node on = Some (last bs)" by blast
  have neq: "last bs \<noteq> old" using d ne by auto
  have "remove_tail s = Some (s\<lparr>mem := (mem s)(last bs \<mapsto> tn\<lparr>next_node := None\<rparr>,
                                                     old \<mapsto> on\<lparr>valid := 0\<rparr>),
                                    deck := (deck s)\<lparr>tail := Some (last bs)\<rparr>\<rparr>)"
    using f neq tl by (simp add: remove_tail_def load_def store_def)
  with f show ?thesis by blast
qed

lemma link_at_head_result:
  assumes "head (deck s) = Some h" "mem s h = Some hn" "mem s nn = Some N" "nn \<noteq> h"
  shows "link_at_head nn s =
           Some (s\<lparr>mem := (mem s)(nn \<mapsto> N\<lparr>next_node := Some h\<rparr>, h \<mapsto> hn\<lparr>prev_node := Some nn\<rparr>)\<rparr>)"
  using assms by (simp add: link_at_head_def load_def store_def)


lemma live_eqI:
  assumes "\<And>a. a \<noteq> nn \<Longrightarrow> a \<noteq> old \<Longrightarrow> map_option valid (mem s' a) = map_option valid (mem s a)"
    and "\<exists>n. mem s' nn = Some n \<and> valid n = 1"
    and "old \<noteq> nn \<Longrightarrow> map_option valid (mem s' old) = Some 0"
    and "mem s nn = None"
  shows "live s' = insert nn (live s - {old})"
proof (rule set_eqI)
  fix a
  show "a \<in> live s' \<longleftrightarrow> a \<in> insert nn (live s - {old})"
  proof (cases "a = nn")
    case True
    then show ?thesis using assms(2) by (auto simp: live_def)
  next
    case nn: False
    show ?thesis
    proof (cases "a = old")
      case True
      then show ?thesis using assms(3) nn by (auto simp: live_def)
    next
      case False
      from assms(1) [OF nn False] show ?thesis using nn False
        by (cases "mem s' a"; cases "mem s a") (auto simp: live_def)
    qed
  qed
qed

lemma dq_enqueue_empty:
  assumes inv: "dq_inv s []" and fresh: "mem s nn = None"
  shows "dq_enqueue (Some nn) r s =
           Some \<lparr>mem = (mem s)(nn \<mapsto> \<lparr>data = r, prev_node = None, next_node = None,
                                       valid = 1, reference_count = 0\<rparr>),
                 deck = \<lparr>head = Some nn, tail = Some nn, size_deck = 1\<rparr>\<rparr>"
  using inv by (simp add: dq_inv_def dq_enqueue_def store_def load_def MAX_CACHE_COUNT_def)


lemma dq_enqueue_first:
  assumes inv: "dq_inv s []" and fresh: "mem s nn = None"
  shows "\<exists>s'. dq_enqueue (Some nn) r s = Some s' \<and> enq_post s [] nn r s'"
proof -
  let ?s' = "\<lparr>mem = (mem s)(nn \<mapsto> \<lparr>data = r, prev_node = None, next_node = None,
                                       valid = 1, reference_count = 0\<rparr>),
                 deck = \<lparr>head = Some nn, tail = Some nn, size_deck = 1\<rparr>\<rparr>"
  have e: "dq_enqueue (Some nn) r s = Some ?s'" using inv fresh by (rule dq_enqueue_empty)
  have "live s = {}" using inv by (simp add: dq_inv_def)
  then have "live ?s' = {nn}" by (auto simp: live_def split: if_splits)
  then have "dq_inv ?s' [nn]" by (simp add: dq_inv_def MAX_CACHE_COUNT_def)
  then have "enq_post s [] nn r ?s'" by (simp add: enq_post_def MAX_CACHE_COUNT_def)
  with e show ?thesis by blast
qed

lemma dq_enqueue_more:
  assumes inv: "dq_inv s (h # rest)" and fresh: "mem s nn = None"
    and len: "length (h # rest) \<noteq> MAX_CACHE_COUNT"
  shows "\<exists>s'. dq_enqueue (Some nn) r s = Some s' \<and> enq_post s (h # rest) nn r s'"
proof -
  let ?as = "h # rest"
  from inv have d: "distinct ?as" and sz: "size_deck (deck s) = length ?as"
    and ch: "chain (mem s) None ?as (head (deck s))"
    and tl: "tail (deck s) = Some (last ?as)" and lv: "live s = set ?as"
    and le: "length ?as \<le> MAX_CACHE_COUNT"
    by (simp_all add: dq_inv_def)
  from ch obtain hn where hd: "head (deck s) = Some h" and hn: "mem s h = Some hn" "valid hn = 1"
    "prev_node hn = None" and chr: "chain (mem s) (Some h) rest (next_node hn)"
    by (auto split: option.splits)
  have nn_notin: "nn \<notin> set ?as" using chain_allocated [OF ch] fresh by force
  then have nh: "nn \<noteq> h" by simp
  let ?N = "\<lparr>data = r, prev_node = None, next_node = None, valid = 1, reference_count = 0\<rparr>"
  let ?s0 = "store nn ?N s"
  let ?m' = "(mem s)(nn \<mapsto> ?N\<lparr>next_node := Some h, prev_node := None\<rparr>,
                       h \<mapsto> hn\<lparr>prev_node := Some nn\<rparr>)"
  let ?s' = "\<lparr>mem = ?m', deck = (deck s)\<lparr>head := Some nn, size_deck := size_deck (deck s) + 1\<rparr>\<rparr>"
  have l: "link_at_head nn ?s0 =
      Some (?s0\<lparr>mem := (mem ?s0)(nn \<mapsto> ?N\<lparr>next_node := Some h\<rparr>, h \<mapsto> hn\<lparr>prev_node := Some nn\<rparr>)\<rparr>)"
    using hd hn nh by (intro link_at_head_result) (simp_all add: store_def)
  have e: "dq_enqueue (Some nn) r s = Some ?s'"
    using sz len nh unfolding dq_enqueue_def
    by (simp add: l Let_def) (simp add: store_def load_def fun_upd_twist)
  have "chain ?m' (Some h) rest (next_node hn) = chain (mem s) (Some h) rest (next_node hn)"
    using d nn_notin by (intro chain_frame) auto
  then have ch': "chain ?m' None (nn # ?as) (Some nn)" using chr hn nh by simp
  have v: "map_option valid (?m' a) = map_option valid (mem s a)" if "a \<noteq> nn" for a
    using that hn by simp
  have lv': "live ?s' = insert nn (live s - {nn})"
    by (rule live_eqI) (use v fresh nh in simp_all)
  have "dq_inv ?s' (nn # ?as)"
    unfolding dq_inv_def using d nn_notin le len sz ch' tl lv lv' fresh
    by (auto simp: live_def)
  moreover have "\<forall>a. a \<noteq> nn \<longrightarrow> map_option data (?m' a) = map_option data (mem s a)
                   \<and> map_option reference_count (?m' a) = map_option reference_count (mem s a)"
    using hn by simp
  ultimately have "enq_post s ?as nn r ?s'"
    unfolding enq_post_def using len v nh by simp
  with e show ?thesis by blast
qed


lemma dq_enqueue_full:
  assumes inv: "dq_inv s as" and fresh: "mem s nn = None"
    and len: "length as = MAX_CACHE_COUNT"
  shows "\<exists>s'. dq_enqueue (Some nn) r s = Some s' \<and> enq_post s as nn r s'"
proof -
  from len have "as \<noteq> []" by (auto simp: MAX_CACHE_COUNT_def)
  then obtain bs old where as: "as = bs @ [old]" by (metis rev_exhaust)
  with len have "bs \<noteq> []" by (auto simp: MAX_CACHE_COUNT_def)
  then obtain h rest where bs: "bs = h # rest" by (cases bs) auto
  from inv have d: "distinct as" and sz: "size_deck (deck s) = length as"
    and ch: "chain (mem s) None as (head (deck s))"
    and tl: "tail (deck s) = Some old" and lv: "live s = set as"
    by (simp_all add: dq_inv_def as)
  have nn_notin: "nn \<notin> set as" using chain_allocated [OF ch] fresh by force
  define N where "N = \<lparr>data = r, prev_node = None, next_node = None, valid = 1, reference_count = 0\<rparr>"
  define s0 where "s0 = store nn N s"
  have m0: "mem s0 = (mem s)(nn \<mapsto> N)" and d0: "deck s0 = deck s" by (simp_all add: s0_def store_def)
  have "chain (mem s0) None as (head (deck s)) = chain (mem s) None as (head (deck s))"
    using nn_notin by (intro chain_frame) (auto simp: m0)
  then have ch0: "chain (mem s0) None (bs @ [old]) (head (deck s0))" using ch by (simp add: as d0)
  from remove_tail_result [OF ch0 \<open>bs \<noteq> []\<close>] d tl obtain tn on where
    tn: "mem s0 (last bs) = Some tn" and on: "mem s0 old = Some on" and
    rt: "remove_tail s0 = Some (s0\<lparr>mem := (mem s0)(last bs \<mapsto> tn\<lparr>next_node := None\<rparr>,
                                                     old \<mapsto> on\<lparr>valid := 0\<rparr>),
                                    deck := (deck s0)\<lparr>tail := Some (last bs)\<rparr>\<rparr>)"
    unfolding as d0 by blast
  define s1 where "s1 = s0\<lparr>mem := (mem s0)(last bs \<mapsto> tn\<lparr>next_node := None\<rparr>,
                                                     old \<mapsto> on\<lparr>valid := 0\<rparr>),
                                    deck := (deck s0)\<lparr>tail := Some (last bs)\<rparr>\<rparr>"
  have m1: "mem s1 = (mem s0)(last bs \<mapsto> tn\<lparr>next_node := None\<rparr>, old \<mapsto> on\<lparr>valid := 0\<rparr>)"
    and d1: "deck s1 = (deck s)\<lparr>tail := Some (last bs)\<rparr>"
    by (simp_all add: s1_def d0)
  have ch1: "chain (mem s1) None bs (head (deck s))"
    unfolding m1 using ch0 \<open>bs \<noteq> []\<close> d tn unfolding as d0 by (intro chain_drop_last) simp_all
  from ch1 obtain hn where hd: "head (deck s) = Some h" and hn: "mem s1 h = Some hn" "valid hn = 1"
    "prev_node hn = None" and chr: "chain (mem s1) (Some h) rest (next_node hn)"
    unfolding bs by (auto split: option.splits)
  have nh: "nn \<noteq> h" and nl: "nn \<noteq> last bs" and no: "nn \<noteq> old" and ho: "h \<noteq> old"
    using nn_notin \<open>bs \<noteq> []\<close> d by (auto simp: as bs)
  have n1: "mem s1 nn = Some N" using nl no by (simp add: m1 m0)
  have l: "link_at_head nn s1 =
      Some (s1\<lparr>mem := (mem s1)(nn \<mapsto> N\<lparr>next_node := Some h\<rparr>, h \<mapsto> hn\<lparr>prev_node := Some nn\<rparr>)\<rparr>)"
    using hd hn n1 nh by (intro link_at_head_result) (simp_all add: d1)
  define m' where "m' = (mem s1)(nn \<mapsto> N\<lparr>next_node := Some h, prev_node := None\<rparr>,
                       h \<mapsto> hn\<lparr>prev_node := Some nn\<rparr>)"
  define s' where "s' = \<lparr>mem = m', deck = (deck s)\<lparr>tail := Some (last bs), head := Some nn\<rparr>\<rparr>"
  define s2 where "s2 = s1\<lparr>mem := (mem s1)(nn \<mapsto> N\<lparr>next_node := Some h\<rparr>, h \<mapsto> hn\<lparr>prev_node := Some nn\<rparr>)\<rparr>"
  have rt': "remove_tail s0 = Some s1" unfolding s1_def by (rule rt)
  have l': "link_at_head nn s1 = Some s2" unfolding s2_def by (rule l)
  have sz0: "size_deck (deck s0) = MAX_CACHE_COUNT" using sz len by (simp add: d0)
  have "dq_enqueue (Some nn) r s =
      do { s1 \<leftarrow> remove_tail s0;
           s2 \<leftarrow> link_at_head nn s1;
           let s3 = s2\<lparr>deck := (deck s2)\<lparr>head := Some nn\<rparr>\<rparr>;
           (_, n3) \<leftarrow> load s3 (Some nn);
           Some (store nn (n3\<lparr>prev_node := None\<rparr>) s3) }"
    unfolding dq_enqueue_def option.case Let_def N_def [symmetric] s0_def [symmetric]
    using sz0 by simp
  also have "\<dots> = Some s'"
    using nh by (simp add: rt' l' s2_def s'_def m'_def d1 load_def store_def fun_upd_twist)
  finally have e: "dq_enqueue (Some nn) r s = Some s'" .
  have "chain m' (Some h) rest (next_node hn) = chain (mem s1) (Some h) rest (next_node hn)"
    using d nn_notin unfolding m'_def by (intro chain_frame) (auto simp: as bs)
  then have ch': "chain m' None (nn # bs) (Some nn)"
    using chr hn nh by (simp add: m'_def bs N_def)
  have data1: "map_option data (mem s1 a) = map_option data (mem s a)
      \<and> map_option reference_count (mem s1 a) = map_option reference_count (mem s a)"
    if "a \<noteq> nn" for a
    using that tn on by (auto simp: m1 m0 split: if_splits)
  have valid1: "map_option valid (mem s1 a) = (if a = old then Some 0 else map_option valid (mem s a))"
    if "a \<noteq> nn" for a
    using that tn on by (auto simp: m1 m0 split: if_splits)
  have data': "map_option data (m' a) = map_option data (mem s a)
      \<and> map_option reference_count (m' a) = map_option reference_count (mem s a)"
    if "a \<noteq> nn" for a
    using that data1 [of a] hn by (auto simp: m'_def)
  have valid': "map_option valid (m' a) = (if a = old then Some 0 else map_option valid (mem s a))"
    if "a \<noteq> nn" for a
    using that valid1 [of a] hn ho by (auto simp: m'_def)
  have nn': "\<exists>n. m' nn = Some n \<and> data n = r \<and> reference_count n = 0 \<and> valid n = 1"
    using nh by (simp add: m'_def N_def)
  have lv': "live s' = insert nn (live s - {old})"
  proof (rule live_eqI)
    show "\<exists>n. mem s' nn = Some n \<and> valid n = 1" using nn' by (auto simp: s'_def)
    show "mem s nn = None" by (rule fresh)
  qed (use valid' no in \<open>simp_all add: s'_def\<close>)
  have "dq_inv s' (nn # bs)"
    unfolding dq_inv_def using d nn_notin len sz ch' lv lv' \<open>bs \<noteq> []\<close>
    by (auto simp: s'_def as MAX_CACHE_COUNT_def)
  then have "enq_post s as nn r s'"
    unfolding enq_post_def using len nn' data' valid' by (simp add: as s'_def)
  with e show ?thesis by blast
qed

lemma dq_enqueue_inv:
  assumes "dq_inv s as" "mem s nn = None"
  shows "\<exists>s'. dq_enqueue (Some nn) r s = Some s' \<and> enq_post s as nn r s'"
proof (cases "length as = MAX_CACHE_COUNT")
  case True
  with assms show ?thesis by (rule dq_enqueue_full)
next
  case False
  show ?thesis
  proof (cases as)
    case Nil
    with assms show ?thesis by (simp add: dq_enqueue_first)
  next
    case (Cons h rest)
    with assms False show ?thesis by (simp add: dq_enqueue_more)
  qed
qed

lemma search_nodes_chain:
  "chain m prv as p \<Longrightarrow>
     search_nodes m p target = Some (find (\<lambda>a. filename (data (the (m a))) = target) as)"
proof (induction as arbitrary: prv p)
  case Nil
  then show ?case by (subst search_nodes.simps) simp
next
  case (Cons a as)
  from Cons.prems obtain n where n: "p = Some a" "m a = Some n" "chain m (Some a) as (next_node n)"
    by (auto split: option.splits)
  from Cons.IH [OF n(3)] show ?case using n by (subst search_nodes.simps) simp
qed

lemma find_SomeD: "find P xs = Some x \<Longrightarrow> x \<in> set xs \<and> P x"
  by (induction xs) (auto split: if_splits)

lemma dq_search_result:
  assumes inv: "dq_inv s as"
  shows "dq_search s target =
    (case find (\<lambda>a. filename (data (the (mem s a))) = target) as of
       None \<Rightarrow> Some (None, s)
     | Some c \<Rightarrow>
         Some (Some (c, data (the (mem s c))),
               s\<lparr>mem := (mem s)(c \<mapsto> (the (mem s c))
                      \<lparr>reference_count := reference_count (the (mem s c)) + 1\<rparr>)\<rparr>))"
proof (cases "as = []")
  case True
  then show ?thesis using inv by (simp add: dq_inv_def dq_search_def)
next
  case False
  from inv have ch: "chain (mem s) None as (head (deck s))" and sz: "size_deck (deck s) \<noteq> 0"
    using False by (simp_all add: dq_inv_def)
  show ?thesis
  proof (cases "find (\<lambda>a. filename (data (the (mem s a))) = target) as")
    case None
    then show ?thesis using sz by (simp add: dq_search_def search_nodes_chain [OF ch])
  next
    case (Some c)
    then have "c \<in> set as" by (auto dest: find_SomeD)
    from chain_allocated [OF ch this] obtain n where "mem s c = Some n" by blast
    then show ?thesis using sz Some
      by (simp add: dq_search_def search_nodes_chain [OF ch] load_def store_def)
  qed
qed

lemma dq_inv_init: "dq_inv server_init []"
  by (simp add: dq_inv_def server_init_def live_def)

lemma take_cap_butlast:
  assumes "length as = n"
  shows "take n (xs @ b # butlast as) = take n (xs @ b # as)"
  using assms by (auto simp: butlast_conv_take take_Cons' min_def)

lemma entries_enq:
  assumes "enq_post s as nn r s'" "nn \<notin> set bs"
  shows "entries s' (nn # bs) = r # entries s bs"
proof -
  from assms(1) obtain n where "mem s' nn = Some n" "data n = r" by (auto simp: enq_post_def)
  moreover have "data (the (mem s' a)) = data (the (mem s a))" if "a \<in> set bs" for a
  proof -
    have "a \<noteq> nn" using that assms(2) by auto
    then have "map_option data (mem s' a) = map_option data (mem s a)"
      using assms(1) by (simp add: enq_post_def)
    then show ?thesis by (cases "mem s' a"; cases "mem s a") (simp_all add: option.the_def)
  qed
  ultimately show ?thesis by (simp add: entries_def)
qed


lemma dq_run_inv:
  "dq_inv s as \<Longrightarrow> allocs_fresh s ins \<Longrightarrow>
     \<exists>s'. dq_run s ins = Some s'
        \<and> dq_inv s' (take MAX_CACHE_COUNT (rev (map fst (made ins)) @ as))
        \<and> entries s' (take MAX_CACHE_COUNT (rev (map fst (made ins)) @ as))
            = take MAX_CACHE_COUNT (rev (map snd (made ins)) @ entries s as)"
proof (induction ins arbitrary: s as)
  case Nil
  then have "length as \<le> MAX_CACHE_COUNT" by (simp add: dq_inv_def)
  then show ?case using Nil by (simp add: entries_def)
next
  case (Cons x ins)
  obtain a r where x: "x = (a, r)" by (cases x)
  show ?case
  proof (cases a)
    case None
    have "dq_enqueue None r s = Some s" by (simp add: dq_enqueue_def)
    then have "allocs_fresh s ins" using Cons.prems(2) by (simp add: x None)
    from Cons.IH [OF Cons.prems(1) this] show ?thesis
      by (simp add: x None dq_enqueue_def)
  next
    case (Some nn)
    have fresh: "mem s nn = None" using Cons.prems(2) by (simp add: x Some)
    define as1 where "as1 = (if length as = MAX_CACHE_COUNT then butlast as else as)"
    from dq_enqueue_inv [OF Cons.prems(1) fresh, of r] obtain s1 where
      e: "dq_enqueue (Some nn) r s = Some s1" and post: "enq_post s as nn r s1" by blast
    have inv1: "dq_inv s1 (nn # as1)" using post by (simp add: enq_post_def as1_def)
    have fr1: "allocs_fresh s1 ins" using Cons.prems(2) by (simp add: x Some e)
    have nn: "nn \<notin> set as1" using inv1 by (simp add: dq_inv_def)
    from Cons.IH [OF inv1 fr1] obtain s' where
      run: "dq_run s1 ins = Some s'"
      and inv': "dq_inv s' (take MAX_CACHE_COUNT (rev (map fst (made ins)) @ nn # as1))"
      and ent': "entries s' (take MAX_CACHE_COUNT (rev (map fst (made ins)) @ nn # as1))
            = take MAX_CACHE_COUNT (rev (map snd (made ins)) @ entries s1 (nn # as1))"
      by blast
    have t1: "take MAX_CACHE_COUNT (xs @ nn # as1) = take MAX_CACHE_COUNT (xs @ nn # as)" for xs
    proof (cases "length as = MAX_CACHE_COUNT")
      case True
      then have "as1 = butlast as" by (simp add: as1_def)
      then show ?thesis by (simp only: take_cap_butlast [OF True])
    next
      case False
      then show ?thesis by (simp add: as1_def)
    qed
    have "entries s1 (nn # as1) = r # entries s as1" using post nn by (rule entries_enq)
    moreover have "entries s as1 =
        (if length (entries s as) = MAX_CACHE_COUNT then butlast (entries s as) else entries s as)"
      by (simp add: as1_def entries_def map_butlast)
    ultimately have t2: "take MAX_CACHE_COUNT (ys @ entries s1 (nn # as1))
        = take MAX_CACHE_COUNT (ys @ r # entries s as)" for ys
    proof (cases "length (entries s as) = MAX_CACHE_COUNT")
      case True
      assume "entries s1 (nn # as1) = r # entries s as1"
        and "entries s as1 =
          (if length (entries s as) = MAX_CACHE_COUNT then butlast (entries s as) else entries s as)"
      then have "entries s1 (nn # as1) = r # butlast (entries s as)" using True by simp
      then show ?thesis by (simp only: take_cap_butlast [OF True])
    next
      case False
      assume "entries s1 (nn # as1) = r # entries s as1"
        and "entries s as1 =
          (if length (entries s as) = MAX_CACHE_COUNT then butlast (entries s as) else entries s as)"
      then show ?thesis using False by simp
    qed
    have "dq_run s (x # ins) = Some s'" by (simp add: x Some e run)
    moreover have f: "rev (map fst (made (x # ins))) @ as = rev (map fst (made ins)) @ nn # as"
      and g: "rev (map snd (made (x # ins))) @ entries s as
                = rev (map snd (made ins)) @ r # entries s as"
      by (simp_all add: x Some)
    moreover have "dq_inv s' (take MAX_CACHE_COUNT (rev (map fst (made (x # ins))) @ as))"
      using inv' unfolding f t1 .
    moreover have "entries s' (take MAX_CACHE_COUNT (rev (map fst (made (x # ins))) @ as))
            = take MAX_CACHE_COUNT (rev (map snd (made (x # ins))) @ entries s as)"
      using ent' unfolding f g t1 t2 .
    ultimately show ?thesis by blast
  qed
qed

lemma dq_run_from_init:
  assumes "allocs_fresh server_init ins"
  shows "\<exists>s. dq_run server_init ins = Some s
        \<and> dq_inv s (map fst (take MAX_CACHE_COUNT (rev (made ins))))
        \<and> entries s (map fst (take MAX_CACHE_COUNT (rev (made ins))))
            = map snd (take MAX_CACHE_COUNT (rev (made ins)))"
  using dq_run_inv [OF dq_inv_init assms] by (simp add: entries_def take_map rev_map)

lemmas dq_eval = dq_enqueue_def server_init_def MAX_CACHE_COUNT_def store_def load_def
  remove_tail_def link_at_head_def Let_def entry_def

lemma two_nodes_eq:
  "two_nodes =
     \<lparr>mem = (\<lambda>a. None)
        (0 \<mapsto> \<lparr>data = entry ''a'' ''AAA'' 1, prev_node = Some 1, next_node = None,
                 valid = 1, reference_count = 0\<rparr>,
         1 \<mapsto> \<lparr>data = entry ''b'' ''BBB'' 2, prev_node = None, next_node = Some 0,
                 valid = 1, reference_count = 0\<rparr>),
      deck = \<lparr>head = Some 1, tail = Some 0, size_deck = 2\<rparr>\<rparr>"
  by (simp add: two_nodes_def dq_eval fun_upd_twist)

subsection \<open>C1: when a node is destroyed\<close>

text \<open>
  \<^verbatim>\<open>put_down\<close> does free a retired node when its count reaches 0.
\<close>

lemma put_down_frees_retired:
  "mem s a = Some n \<Longrightarrow> valid n = 0 \<Longrightarrow> reference_count n = 1 \<Longrightarrow>
     put_down a s = Some (s\<lparr>mem := (mem s)(a := None)\<rparr>)"
  by (simp add: put_down_def load_def store_def)

lemma put_down_keeps_valid:
  "mem s a = Some n \<Longrightarrow> valid n \<noteq> 0 \<Longrightarrow>
     put_down a s = Some (s\<lparr>mem := (mem s)(a \<mapsto> n\<lparr>reference_count := reference_count n - 1\<rparr>)\<rparr>)"
  by (simp add: put_down_def load_def store_def)

text \<open>
  C1, the retirement half: \<^verbatim>\<open>remove_tail\<close> never frees. After six inserts at the
  addresses 0 to 5 with no lookup in between, the node at address 0 was the tail of the
  full deque with count 0 when the sixth insert retired it; it is still allocated,
  invalid and with count 0, and a lookup of its key misses, so no \<^verbatim>\<open>put_down\<close> will ever
  reach it.
\<close>

theorem retired_tail_not_freed:
  "dq_run server_init six_inserts \<noteq> None
   \<and> mem (the (dq_run server_init six_inserts)) 0
       = Some \<lparr>data = entry ''a'' ''A'' 1, prev_node = Some 1, next_node = None,
                valid = 0, reference_count = 0\<rparr>
   \<and> dq_search (the (dq_run server_init six_inserts)) ''a''
       = Some (None, the (dq_run server_init six_inserts))"
  by (simp add: six_inserts_def dq_eval dq_search_def search_nodes.simps)

subsection \<open>C3: what a lookup in the deque writes\<close>

text \<open>
  C3, as stated: a hit increments the count, updates the access time of the entry and
  moves the node toward the head. It fails: in the deque of two nodes with b at the
  head and a at the tail, a lookup of a returns a's entry and raises the count of its
  node to 1, but the access time of the entry is still the one it was inserted with,
  the node still has the head as its predecessor, and head and tail are as before.
\<close>

theorem lookup_no_promotion_counterexample:
  "fst (the (dq_search two_nodes ''a'')) = Some (0, entry ''a'' ''AAA'' 1)
   \<and> deck (snd (the (dq_search two_nodes ''a''))) = \<lparr>head = Some 1, tail = Some 0, size_deck = 2\<rparr>
   \<and> mem (snd (the (dq_search two_nodes ''a''))) 0
       = Some \<lparr>data = entry ''a'' ''AAA'' 1, prev_node = Some 1, next_node = None,
                valid = 1, reference_count = 1\<rparr>"
  by (simp add: two_nodes_eq dq_search_def search_nodes.simps load_def store_def entry_def)

lemma chain_count_update:
  "m c = Some n \<Longrightarrow>
     chain (m(c \<mapsto> n\<lparr>reference_count := k\<rparr>)) prv as p = chain m prv as p"
proof (induction as arbitrary: prv p)
  case Nil
  then show ?case by simp
next
  case (Cons a as)
  then show ?case by (cases "a = c") (simp_all split: option.splits)
qed

lemma dq_inv_count_update:
  assumes "dq_inv s as" "mem s c = Some n"
  shows "dq_inv (s\<lparr>mem := (mem s)(c \<mapsto> n\<lparr>reference_count := k\<rparr>)\<rparr>) as"
proof -
  have "live (s\<lparr>mem := (mem s)(c \<mapsto> n\<lparr>reference_count := k\<rparr>)\<rparr>) = live s"
    using assms(2) by (auto simp: live_def split: if_splits)
  then show ?thesis using assms by (simp add: dq_inv_def chain_count_update)
qed

lemma cint_succ:
  "sint (x + 1 :: cint) = (if sint x = 2147483647 then - 2147483648 else sint x + 1)"
proof -
  have s: "sint (x + 1) = signed_take_bit 31 (sint x + 1)"
    by (simp add: sint_word_ariths)
  have r: "- 2147483648 \<le> sint x" "sint x \<le> 2147483647"
    using sint_range_size [of x] by (simp_all add: word_size)
  show ?thesis
  proof (cases "sint x = 2147483647")
    case True
    then show ?thesis unfolding s by simp
  next
    case False
    with r have "- (2 ^ 31) \<le> sint x + 1" "sint x + 1 < 2 ^ 31" by simp_all
    then have "signed_take_bit 31 (sint x + 1) = sint x + 1"
      by (rule signed_take_bit_int_eq_self)
    with False show ?thesis unfolding s by simp
  qed
qed

text \<open>
  C3, amended: on a deque in its list shape (\<open>dq_inv\<close>), a lookup whose key matches
  returns the entry of the first matching node from the head and adds one to the count
  of that node, in the arithmetic of the \<^verbatim>\<open>int\<close> the count is: a count below 2147483647
  goes up by one, the count 2147483647 becomes -2147483648. It writes nothing else, so
  access times and the order of the list stay as they are. When no node matches it
  returns \<^verbatim>\<open>NULL\<close> and the state is unchanged.
\<close>

theorem dq_search_effect:
  assumes inv: "dq_inv s as"
  shows "case find (\<lambda>a. filename (data (the (mem s a))) = target) as of
           None \<Rightarrow> dq_search s target = Some (None, s)
         | Some c \<Rightarrow>
             \<exists>n. mem s c = Some n \<and> filename (data n) = target
               \<and> dq_search s target =
                    Some (Some (c, data n),
                          s\<lparr>mem := (mem s)(c \<mapsto> n\<lparr>reference_count := reference_count n + 1\<rparr>)\<rparr>)
               \<and> sint (reference_count n + 1) =
                    (if sint (reference_count n) = 2147483647 then - 2147483648
                     else sint (reference_count n) + 1)
               \<and> dq_inv (s\<lparr>mem := (mem s)(c \<mapsto> n\<lparr>reference_count := reference_count n + 1\<rparr>)\<rparr>) as"
proof (cases "find (\<lambda>a. filename (data (the (mem s a))) = target) as")
  case None
  then show ?thesis using dq_search_result [OF inv, of target] by simp
next
  case (Some c)
  then have c: "c \<in> set as" "filename (data (the (mem s c))) = target"
    by (auto dest: find_SomeD)
  from inv have "chain (mem s) None as (head (deck s))" by (simp add: dq_inv_def)
  from chain_allocated [OF this c(1)] obtain n where n: "mem s c = Some n" by blast
  have "dq_search s target =
      Some (Some (c, data n), s\<lparr>mem := (mem s)(c \<mapsto> n\<lparr>reference_count := reference_count n + 1\<rparr>)\<rparr>)"
    using dq_search_result [OF inv, of target] Some n by simp
  moreover have "dq_inv (s\<lparr>mem := (mem s)(c \<mapsto> n\<lparr>reference_count := reference_count n + 1\<rparr>)\<rparr>) as"
    using inv n by (rule dq_inv_count_update)
  ultimately show ?thesis using Some n c(2) cint_succ [of "reference_count n"] by simp
qed

lemma dq_inv_two_nodes: "dq_inv two_nodes [1, 0]"
proof -
  have "allocs_fresh server_init [(Some 0, entry ''a'' ''AAA'' 1), (Some 1, entry ''b'' ''BBB'' 2)]"
    by (simp add: dq_eval)
  from dq_run_from_init [OF this] show ?thesis
    by (auto simp: two_nodes_def MAX_CACHE_COUNT_def)
qed

lemma dq_inv_pinned_max: "dq_inv pinned_max [1, 0]"
proof -
  have "mem two_nodes 0 = Some \<lparr>data = entry ''a'' ''AAA'' 1, prev_node = Some 1,
      next_node = None, valid = 1, reference_count = 0\<rparr>"
    by (simp add: two_nodes_eq)
  from dq_inv_count_update [OF dq_inv_two_nodes this, of 2147483647]
  show ?thesis by (simp add: pinned_max_def)
qed

theorem dq_search_effect_witness:
  "dq_inv two_nodes [1, 0]
   \<and> dq_search two_nodes ''a'' =
        Some (Some (0, entry ''a'' ''AAA'' 1),
              two_nodes\<lparr>mem := (mem two_nodes)(0 \<mapsto>
                 \<lparr>data = entry ''a'' ''AAA'' 1, prev_node = Some 1, next_node = None,
                  valid = 1, reference_count = 1\<rparr>)\<rparr>)
   \<and> dq_search two_nodes ''c'' = Some (None, two_nodes)
   \<and> dq_inv pinned_max [1, 0]
   \<and> map_option (sint \<circ> reference_count) (mem pinned_max 0) = Some 2147483647
   \<and> map_option (sint \<circ> reference_count) (mem (snd (the (dq_search pinned_max ''a''))) 0)
       = Some (- 2147483648)"
proof -
  have a: "find (\<lambda>a. filename (data (the (mem two_nodes a))) = ''a'') [1, 0] = Some 0"
    by (simp add: two_nodes_eq entry_def)
  have c: "find (\<lambda>a. filename (data (the (mem two_nodes a))) = ''c'') [1, 0] = None"
    by (simp add: two_nodes_eq entry_def)
  have n: "mem two_nodes 0 = Some \<lparr>data = entry ''a'' ''AAA'' 1, prev_node = Some 1,
      next_node = None, valid = 1, reference_count = 0\<rparr>"
    by (simp add: two_nodes_eq)
  have A: "\<exists>n. mem two_nodes 0 = Some n \<and> filename (data n) = ''a''
      \<and> dq_search two_nodes ''a'' =
          Some (Some (0, data n),
                two_nodes\<lparr>mem := (mem two_nodes)(0 \<mapsto> n\<lparr>reference_count := reference_count n + 1\<rparr>)\<rparr>)
      \<and> sint (reference_count n + 1) =
          (if sint (reference_count n) = 2147483647 then - 2147483648
           else sint (reference_count n) + 1)
      \<and> dq_inv (two_nodes\<lparr>mem := (mem two_nodes)(0 \<mapsto> n\<lparr>reference_count := reference_count n + 1\<rparr>)\<rparr>) [1, 0]"
    using dq_search_effect [OF dq_inv_two_nodes, of "''a''"] unfolding a option.case .
  have C: "dq_search two_nodes ''c'' = Some (None, two_nodes)"
    using dq_search_effect [OF dq_inv_two_nodes, of "''c''"] unfolding c option.case .
  from A n have R: "dq_search two_nodes ''a'' =
        Some (Some (0, entry ''a'' ''AAA'' 1),
              two_nodes\<lparr>mem := (mem two_nodes)(0 \<mapsto>
                 \<lparr>data = entry ''a'' ''AAA'' 1, prev_node = Some 1, next_node = None,
                  valid = 1, reference_count = 1\<rparr>)\<rparr>)"
    by auto
  have a': "find (\<lambda>a. filename (data (the (mem pinned_max a))) = ''a'') [1, 0] = Some 0"
    by (simp add: pinned_max_def two_nodes_eq entry_def)
  have n': "mem pinned_max 0 = Some \<lparr>data = entry ''a'' ''AAA'' 1, prev_node = Some 1,
      next_node = None, valid = 1, reference_count = 2147483647\<rparr>"
    by (simp add: pinned_max_def)
  have A': "\<exists>n. mem pinned_max 0 = Some n \<and> filename (data n) = ''a''
      \<and> dq_search pinned_max ''a'' =
          Some (Some (0, data n),
                pinned_max\<lparr>mem := (mem pinned_max)(0 \<mapsto> n\<lparr>reference_count := reference_count n + 1\<rparr>)\<rparr>)
      \<and> sint (reference_count n + 1) =
          (if sint (reference_count n) = 2147483647 then - 2147483648
           else sint (reference_count n) + 1)
      \<and> dq_inv (pinned_max\<lparr>mem := (mem pinned_max)(0 \<mapsto> n\<lparr>reference_count := reference_count n + 1\<rparr>)\<rparr>) [1, 0]"
    using dq_search_effect [OF dq_inv_pinned_max, of "''a''"] unfolding a' option.case .
  have before: "map_option (sint \<circ> reference_count) (mem pinned_max 0) = Some 2147483647"
    by (simp add: n')
  from A' n' have after:
    "map_option (sint \<circ> reference_count) (mem (snd (the (dq_search pinned_max ''a''))) 0)
       = Some (- 2147483648)"
    by auto
  from dq_inv_two_nodes R C dq_inv_pinned_max before after show ?thesis by blast
qed

lemma find_entries:
  "map (\<lambda>a. data (the (m a))) (map fst L) = map snd L \<Longrightarrow>
     map_option (\<lambda>c. (c, data (the (m c)))) (find (\<lambda>a. P (data (the (m a)))) (map fst L))
       = find (\<lambda>(a, r). P r) L"
  by (induction L) auto

subsection \<open>C9: duplicates of a key\<close>

text \<open>
  C9: after any run of inserts from the empty deque, a lookup returns the first entry
  with the requested filename among the nodes still linked, newest first: these are
  the last five nodes the run created. Inserts are not deduplicated, so when a key was
  inserted more than once the lookup returns the entry of the most recent of these
  inserts (as long as that node is among the five).
\<close>

theorem lookup_most_recent:
  assumes "allocs_fresh server_init ins"
  shows "\<exists>s. dq_run server_init ins = Some s
           \<and> map_option fst (dq_search s target)
               = Some (find (\<lambda>(a, r). filename r = target)
                         (take MAX_CACHE_COUNT (rev (made ins))))"
proof -
  define L where "L = take MAX_CACHE_COUNT (rev (made ins))"
  from dq_run_from_init [OF assms] obtain s where run: "dq_run server_init ins = Some s"
    and inv: "dq_inv s (map fst L)" and ent: "entries s (map fst L) = map snd L"
    unfolding L_def by blast
  have "map_option fst (dq_search s target)
      = Some (map_option (\<lambda>c. (c, data (the (mem s c))))
               (find (\<lambda>a. filename (data (the (mem s a))) = target) (map fst L)))"
    unfolding dq_search_result [OF inv] by (simp split: option.splits)
  also have "map_option (\<lambda>c. (c, data (the (mem s c))))
               (find (\<lambda>a. filename (data (the (mem s a))) = target) (map fst L))
      = find (\<lambda>(a, r). filename r = target) L"
    using ent unfolding entries_def by (rule find_entries)
  finally show ?thesis using run unfolding L_def by blast
qed

theorem lookup_most_recent_witness:
  "allocs_fresh server_init
     [(Some 0, entry ''x'' ''OLD'' 1), (Some 1, entry ''y'' ''Y'' 2), (Some 2, entry ''x'' ''NEW'' 3)]
   \<and> map_option fst (dq_search (the (dq_run server_init
        [(Some 0, entry ''x'' ''OLD'' 1), (Some 1, entry ''y'' ''Y'' 2), (Some 2, entry ''x'' ''NEW'' 3)]))
        ''x'')
      = Some (Some (2, entry ''x'' ''NEW'' 3))"
proof -
  have h: "allocs_fresh server_init
     [(Some 0, entry ''x'' ''OLD'' 1), (Some 1, entry ''y'' ''Y'' 2), (Some 2, entry ''x'' ''NEW'' 3)]"
    by (simp add: dq_eval)
  have f: "find (\<lambda>(a, r). filename r = ''x'') (take MAX_CACHE_COUNT (rev (made
     [(Some 0, entry ''x'' ''OLD'' 1), (Some 1, entry ''y'' ''Y'' 2), (Some 2, entry ''x'' ''NEW'' 3)])))
     = Some (2, entry ''x'' ''NEW'' 3)"
    by (simp add: MAX_CACHE_COUNT_def entry_def)
  from lookup_most_recent [OF h, of "''x''"] show ?thesis unfolding f using h by auto
qed


section \<open>Capacity of both engines\<close>

lemma pq_search_length:
  "length (items (snd (pq_search now pq target))) = length (items pq)"
  using pq_search_filenames [of now pq target] by (metis length_map mset_eq_length)

lemma pq_run_length:
  "length (items pq) \<le> MAX_items \<Longrightarrow> length (items (pq_run pq ops)) \<le> MAX_items"
proof (induction pq ops rule: pq_run.induct)
  case (1 pq)
  then show ?case by simp
next
  case (2 pq v ops)
  then show ?case by (simp add: pq_enqueue_length)
next
  case (3 pq now target ops)
  then show ?case by (simp add: pq_search_length)
qed

lemma dq_inv_card:
  assumes "dq_inv s as"
  shows "finite (live s)" "card (live s) = size_deck (deck s)" "size_deck (deck s) \<le> MAX_CACHE_COUNT"
  using assms by (simp_all add: dq_inv_def distinct_card)

lemma dq_enqueue_full_live:
  assumes inv: "dq_inv s as" and len: "length as = MAX_CACHE_COUNT" and fresh: "mem s nn = None"
  shows "\<exists>s'. dq_enqueue (Some nn) r s = Some s' \<and> last as \<in> live s
           \<and> live s' = insert nn (live s - {last as})
           \<and> map_option valid (mem s' (last as)) = Some 0
           \<and> dq_inv s' (nn # butlast as)"
proof -
  from dq_enqueue_inv [OF inv fresh, of r] obtain s' where
    e: "dq_enqueue (Some nn) r s = Some s'" and post: "enq_post s as nn r s'" by blast
  have ne: "as \<noteq> []" using len by (auto simp: MAX_CACHE_COUNT_def)
  have inv': "dq_inv s' (nn # butlast as)" using post len by (simp add: enq_post_def)
  have d: "distinct as" and lv: "live s = set as" using inv by (simp_all add: dq_inv_def)
  from ne obtain bs old where as: "as = bs @ [old]" by (metis rev_exhaust)
  have "set (butlast as) = set as - {last as}"
    using d unfolding as by auto
  then have "live s' = insert nn (live s - {last as})"
    using inv' lv by (simp add: dq_inv_def)
  moreover have "last as \<in> live s" using lv ne by simp
  moreover have "last as \<noteq> nn" using \<open>last as \<in> live s\<close> fresh by (auto simp: live_def)
  then have "map_option valid (mem s' (last as)) = Some 0"
    using post len by (simp add: enq_post_def)
  ultimately show ?thesis using e inv' by blast
qed


subsection \<open>C5: never more than five live entries\<close>

text \<open>
  C5: in the array engine, whatever inserts and lookups are run from the empty queue,
  the size is at most 5, and an insert into a full queue leaves the size at 5, frees
  one stored entry and puts the new one in its slot. In the deque engine, after any run
  of inserts from the empty deque (whatever \<^verbatim>\<open>malloc\<close> returned), at most 5 nodes are
  not retired and the size field is at most 5; an insert into a deque of 5 nodes
  retires the tail node: the nodes that are not retired are the old ones without the
  tail, and the new one.
\<close>

theorem capacity_bound:
  "length (items (pq_run pq_empty ops)) \<le> MAX_items
   \<and> (length (items pq) = MAX_items \<longrightarrow>
        length (items (pq_enqueue pq v)) = MAX_items
        \<and> evicted pq \<in> set (items pq)
        \<and> mset (items (pq_enqueue pq v)) = add_mset v (mset (items pq) - {#evicted pq#}))
   \<and> (allocs_fresh server_init ins \<longrightarrow>
        (\<exists>s. dq_run server_init ins = Some s
           \<and> dq_inv s (map fst (take MAX_CACHE_COUNT (rev (made ins))))
           \<and> finite (live s) \<and> card (live s) \<le> MAX_CACHE_COUNT
           \<and> size_deck (deck s) \<le> MAX_CACHE_COUNT))
   \<and> (dq_inv s as \<and> length as = MAX_CACHE_COUNT \<and> mem s nn = None \<longrightarrow>
        (\<exists>s'. dq_enqueue (Some nn) r s = Some s'
           \<and> last as \<in> live s
           \<and> live s' = insert nn (live s - {last as})
           \<and> map_option valid (mem s' (last as)) = Some 0
           \<and> card (live s') = MAX_CACHE_COUNT))"
proof -
  have 1: "length (items (pq_run pq_empty ops)) \<le> MAX_items"
    by (rule pq_run_length) (simp add: pq_empty_def)
  have 2: "length (items (pq_enqueue pq v)) = MAX_items
        \<and> evicted pq \<in> set (items pq)
        \<and> mset (items (pq_enqueue pq v)) = add_mset v (mset (items pq) - {#evicted pq#})"
    if "length (items pq) = MAX_items"
    using that by (simp add: pq_enqueue_length evicted_in pq_enqueue_full_mset)
  have 3: "\<exists>s. dq_run server_init ins = Some s
           \<and> dq_inv s (map fst (take MAX_CACHE_COUNT (rev (made ins))))
           \<and> finite (live s) \<and> card (live s) \<le> MAX_CACHE_COUNT
           \<and> size_deck (deck s) \<le> MAX_CACHE_COUNT"
    if "allocs_fresh server_init ins"
  proof -
    from dq_run_from_init [OF that] obtain s where run: "dq_run server_init ins = Some s"
      and inv: "dq_inv s (map fst (take MAX_CACHE_COUNT (rev (made ins))))" by blast
    from dq_inv_card [OF inv] run inv show ?thesis by auto
  qed
  have 4: "\<exists>s'. dq_enqueue (Some nn) r s = Some s'
           \<and> last as \<in> live s
           \<and> live s' = insert nn (live s - {last as})
           \<and> map_option valid (mem s' (last as)) = Some 0
           \<and> card (live s') = MAX_CACHE_COUNT"
    if "dq_inv s as" "length as = MAX_CACHE_COUNT" "mem s nn = None"
  proof -
    from dq_enqueue_full_live [OF that, of r] obtain s' where
      s': "dq_enqueue (Some nn) r s = Some s'" "last as \<in> live s"
      "live s' = insert nn (live s - {last as})" "map_option valid (mem s' (last as)) = Some 0"
      "dq_inv s' (nn # butlast as)" by blast
    from dq_inv_card [OF s'(5)] have "card (live s') = size_deck (deck s')" by simp
    also have "\<dots> = length (nn # butlast as)" using s'(5) by (simp add: dq_inv_def)
    also have "\<dots> = MAX_CACHE_COUNT" using that(2) by (simp add: MAX_CACHE_COUNT_def)
    finally have "card (live s') = MAX_CACHE_COUNT" .
    with s' show ?thesis by blast
  qed
  from 1 2 3 4 show ?thesis by blast
qed


theorem capacity_bound_witness:
  "allocs_fresh server_init six_inserts
   \<and> card (live (the (dq_run server_init six_inserts))) \<le> MAX_CACHE_COUNT
   \<and> length (items five_slots) = MAX_items
   \<and> length (items (pq_enqueue five_slots (entry ''f'' ''F'' 6))) = MAX_items
   \<and> dq_inv five_nodes [4, 3, 2, 1, 0]
   \<and> mem five_nodes 5 = None
   \<and> live (the (dq_enqueue (Some 5) (entry ''f'' ''F'' 6) five_nodes))
       = insert 5 (live five_nodes - {0})"
proof -
  note cb = capacity_bound [of _ five_slots "entry ''f'' ''F'' 6" six_inserts
      five_nodes "[4, 3, 2, 1, 0]" 5 "entry ''f'' ''F'' 6"]
  have h1: "allocs_fresh server_init six_inserts"
    by (simp add: six_inserts_def dq_eval)
  have h2: "length (items five_slots) = MAX_items"
    using pq_run_Enq_length [of pq_empty
        "[entry ''a'' ''A'' 3, entry ''b'' ''B'' 1, entry ''c'' ''C'' 4,
          entry ''d'' ''D'' 2, entry ''e'' ''E'' 5]"]
    by (simp add: five_slots_def pq_empty_def MAX_items_def)
  have "allocs_fresh server_init (butlast six_inserts)"
    by (simp add: six_inserts_def dq_eval)
  from dq_run_from_init [OF this] have h3: "dq_inv five_nodes [4, 3, 2, 1, 0]"
    by (auto simp: five_nodes_def six_inserts_def MAX_CACHE_COUNT_def)
  have h4: "mem five_nodes 5 = None"
    by (simp add: five_nodes_def six_inserts_def dq_eval)
  have h5: "length [4, 3, 2, 1, 0 :: addr] = MAX_CACHE_COUNT" by (simp add: MAX_CACHE_COUNT_def)
  from cb h1 obtain s where "dq_run server_init six_inserts = Some s"
    "card (live s) \<le> MAX_CACHE_COUNT" by blast
  then have c1: "card (live (the (dq_run server_init six_inserts))) \<le> MAX_CACHE_COUNT" by simp
  from cb h2 have c2: "length (items (pq_enqueue five_slots (entry ''f'' ''F'' 6))) = MAX_items"
    by blast
  from cb h3 h4 h5 obtain s' where "dq_enqueue (Some 5) (entry ''f'' ''F'' 6) five_nodes = Some s'"
    "live s' = insert 5 (live five_nodes - {last [4, 3, 2, 1, 0]})" by blast
  then have c3: "live (the (dq_enqueue (Some 5) (entry ''f'' ''F'' 6) five_nodes))
       = insert 5 (live five_nodes - {0})" by simp
  from h1 c1 h2 c2 h3 h4 c3 show ?thesis by blast
qed

section \<open>Properties of the handlers\<close>

lemma wrap32_id: "- 2147483648 \<le> x \<Longrightarrow> x \<le> 2147483647 \<Longrightarrow> wrap32 x = x"
  by (simp add: wrap32_def)

lemma as_ulong_nat: "0 \<le> x \<Longrightarrow> x \<le> 2147483647 \<Longrightarrow> as_ulong x = nat x"
  by (simp add: as_ulong_def)



lemma send_pending_full:
  assumes "full_send tx" "0 \<le> sent" "sent < total_read" "total_read \<le> 2147483647"
  shows "send_pending tx content k sent total_read
           = Some ([Send (Body (drop (nat sent) (take (nat total_read) content)))], k + 1, total_read)"
proof -
  have tx: "tx k (nat (total_read - sent)) = total_read - sent"
    using assms(1,3) by (simp add: full_send_def)
  have w: "wrap32 total_read = total_read"
    using assms by (simp add: wrap32_id)
  have stop: "send_pending tx content (Suc k) total_read total_read = Some ([], Suc k, total_read)"
    by (subst send_pending.simps) simp
  have len: "take (nat (total_read - sent)) (drop (nat sent) (take (nat total_read) content))
      = drop (nat sent) (take (nat total_read) content)"
    using assms by (intro take_all) simp
  show ?thesis
    using assms(2,3) by (subst send_pending.simps) (simp add: tx w stop len)
qed

lemma read_send_full:
  assumes "full_send tx" "length content \<le> 2147483647"
  shows "n = length content - t \<Longrightarrow> t \<le> length content \<Longrightarrow>
     \<exists>es. read_send tx content k (int t) (int t) = Some (es, int (length content))
        \<and> body_bytes es = drop t content \<and> list_all is_send es"
proof (induction n arbitrary: t k rule: less_induct)
  case (less n)
  define b where "b = min 1024 (length content - t)"
  define u where "u = t + b"
  show ?case
  proof (cases "0 < b")
    case False
    then have "t = length content" using less.prems by (simp add: b_def)
    then show ?thesis by (subst read_send.simps) simp
  next
    case True
    have u: "t < u" "u \<le> length content" "int u \<le> 2147483647"
      using True less.prems assms(2) by (simp_all add: u_def b_def)
    have w: "wrap32 (int t + int b) = int u"
      using u by (simp add: wrap32_id u_def)
    have sp: "send_pending tx content k (int t) (int u)
        = Some ([Send (Body (drop t (take u content)))], Suc k, int u)"
      using send_pending_full [OF assms(1), of "int t" "int u" content k] u by simp
    have dec: "length content - u < n" using u less.prems by simp
    from less.IH [OF dec refl u(2), of "Suc k"]
    obtain es where es: "read_send tx content (Suc k) (int u) (int u)
        = Some (es, int (length content))" "body_bytes es = drop u content"
        "list_all is_send es"
      by auto
    have "drop t (take u content @ drop u content) = drop t (take u content) @ drop u content"
      by (subst drop_append) (use u in simp)
    then have cat: "drop t (take u content) @ drop u content = drop t content" by simp
    have "read_send tx content k (int t) (int t)
        = Some (Send (Body (drop t (take u content))) # es, int (length content))"
      using True unfolding b_def
      by (subst read_send.simps) (simp add: w [unfolded b_def] sp es del: of_nat_add of_nat_min)
    then show ?thesis using es cat by simp
  qed
qed

lemma send_rest_full:
  assumes "full_send tx" "filesize r \<le> 2147483647"
  shows "send_rest tx r k 0
     = Some (if 0 < filesize r then [Send (Body (take (filesize r) (response r)))] else [])"
proof (cases "0 < filesize r")
  case False
  then show ?thesis by (subst send_rest.simps) (simp add: as_ulong_def)
next
  case True
  have tx: "tx k (filesize r) = int (filesize r)" using assms(1) by (simp add: full_send_def)
  have w: "wrap32 (int (filesize r)) = int (filesize r)" using assms(2) by (simp add: wrap32_id)
  have u: "as_ulong (int (filesize r)) = filesize r" using assms(2) by (simp add: as_ulong_nat)
  have stop: "send_rest tx r (Suc k) (int (filesize r)) = Some []"
    by (subst send_rest.simps) (simp add: u)
  show ?thesis using True
    by (subst send_rest.simps) (simp add: as_ulong_def tx w stop)
qed













lemma send_existing_full:
  assumes "full_send tx" "int (filesize r) \<le> INT_MAX"
  shows "send_existing_http_response tx r
     = Some (ok_headers (filesize r)
             @ (if 0 < filesize r then [Send (Body (take (filesize r) (response r)))] else [])
             @ [Lock_log, Write_log (filename r) (int (filesize r)), Unlock_log])"
  using send_rest_full [OF assms(1), of r 5] assms(2)
  by (simp add: send_existing_http_response_def INT_MAX_def)

subsection \<open>C7: allocation failure on the miss path\<close>

text \<open>
  C7, as stated: whenever an allocation fails while an entry is inserted (the node or
  the entry), the cache is unchanged and the worker still serves the file bytes. It
  fails for the entry: with an empty deque, a request for a file whose contents are
  \<open>hi\<close>, a transport that accepts everything and a failing
  \<^verbatim>\<open>malloc(sizeof(HttpResponse))\<close>, the handler releases the lock, shuts the connection
  down and exits; no header and no byte of the file is sent.
\<close>

theorem alloc_failure_counterexample:
  "full_send (\<lambda>k n. int n)
   \<and> dq_handler (\<lambda>k n. int n) (Some ''f'') (Some ''hi'') False True True (Some 0)
      \<lparr>tv_sec = 1, tv_nsec = 0\<rparr> server_init
     = Some ([Lock_cache, Cache_search, Unlock_cache, Shutdown, Close], server_init)
   \<and> body_bytes [Lock_cache, Cache_search, Unlock_cache, Shutdown, Close] = []"
  by (simp add: dq_handler_def dq_search_def server_init_def full_send_def)

lemma dq_miss_node_failure:
  assumes "dq_search s fname = Some (None, s)"
    and "dq_handler tx (Some fname) file m_new m_name m_resp None now s = Some (tr, s')"
  shows "s' = s"
  using assms
  by (auto simp: dq_handler_def dq_enqueue_def bind_eq_Some_conv
      split: option.splits if_splits prod.splits)

text \<open>
  C7, amended. When \<^verbatim>\<open>malloc\<close> fails inside the deque's \<^verbatim>\<open>enqueue\<close>, the call returns with
  the state unchanged, and so does the handler, whatever \<^verbatim>\<open>send\<close> does. If \<^verbatim>\<open>send\<close>
  accepts all it is offered and the file has at most 2147483647 bytes (so that the
  \<^verbatim>\<open>int\<close> counters of the read loop do not overflow), the handler has by then sent the
  bytes of the file, all of them and in order, and it ends with the log line,
  \<^verbatim>\<open>shutdown\<close> and \<^verbatim>\<open>close\<close>. When one of the three allocations of the entry fails in
  the handler, in either server, the cache is unchanged as well, but no byte of the
  file is sent: after the failure of the struct or of the name the handler only shuts
  the connection down and closes it, after the failure of the buffer it has sent the
  five header lines and closes the connection.
\<close>

theorem alloc_failure_effect:
  "dq_enqueue None r s = Some s
   \<and> (dq_search s fname = Some (None, s)
        \<and> dq_handler tx (Some fname) file m_new m_name m_resp None now s = Some (tr, s')
      \<longrightarrow> s' = s)
   \<and> (full_send tx \<and> int (length content) \<le> INT_MAX \<and> dq_search s fname = Some (None, s) \<longrightarrow>
        (\<exists>sends. dq_handler tx (Some fname) (Some content) True True True None now s
             = Some ([Lock_cache, Cache_search, Unlock_cache] @ ok_headers (length content)
                     @ sends
                     @ [Lock_cache, Cache_enqueue, Unlock_cache, Lock_log,
                        Write_log fname (int (length content)), Unlock_log, Shutdown, Close], s)
           \<and> list_all is_send sends \<and> body_bytes sends = content))
   \<and> (dq_search s fname = Some (None, s) \<and> \<not> (m_new \<and> m_name \<and> m_resp) \<longrightarrow>
        dq_handler tx (Some fname) (Some content) m_new m_name m_resp m_node now s
          = Some ([Lock_cache, Cache_search, Unlock_cache]
                  @ (if m_new \<and> m_name then ok_headers (length content) @ [Close]
                     else [Shutdown, Close]), s))
   \<and> (fst (pq_search now_hit pq fname) = None \<and> \<not> (m_new \<and> m_name \<and> m_resp) \<longrightarrow>
        naive_handler tx (Some fname) (Some content) m_new m_name m_resp now_hit now pq
          = Some ([Lock_cache, Cache_search, Unlock_cache]
                  @ (if m_new \<and> m_name then ok_headers (length content) @ [Close]
                     else [Shutdown, Close]), pq))"
proof -
  have 1: "dq_enqueue None r s = Some s" by (simp add: dq_enqueue_def)
  have 2: "s' = s"
    if "dq_search s fname = Some (None, s)"
      "dq_handler tx (Some fname) file m_new m_name m_resp None now s = Some (tr, s')"
    using that by (rule dq_miss_node_failure)
  have 3: "\<exists>sends. dq_handler tx (Some fname) (Some content) True True True None now s
             = Some ([Lock_cache, Cache_search, Unlock_cache] @ ok_headers (length content)
                     @ sends
                     @ [Lock_cache, Cache_enqueue, Unlock_cache, Lock_log,
                        Write_log fname (int (length content)), Unlock_log, Shutdown, Close], s)
           \<and> list_all is_send sends \<and> body_bytes sends = content"
    if "full_send tx" "int (length content) \<le> INT_MAX" "dq_search s fname = Some (None, s)"
  proof -
    from that(2) have len: "length content \<le> 2147483647" by (simp add: INT_MAX_def)
    from read_send_full [OF that(1) len refl, of 0 5]
    obtain es where es: "read_send tx content 5 0 0 = Some (es, int (length content))"
      "body_bytes es = content" "list_all is_send es" by auto
    have "dq_handler tx (Some fname) (Some content) True True True None now s
             = Some ([Lock_cache, Cache_search, Unlock_cache] @ ok_headers (length content)
                     @ es
                     @ [Lock_cache, Cache_enqueue, Unlock_cache, Lock_log,
                        Write_log fname (int (length content)), Unlock_log, Shutdown, Close], s)"
      using that(3) es(1) by (simp add: dq_handler_def dq_enqueue_def)
    with es show ?thesis by blast
  qed
  have 4: "dq_handler tx (Some fname) (Some content) m_new m_name m_resp m_node now s
          = Some ([Lock_cache, Cache_search, Unlock_cache]
                  @ (if m_new \<and> m_name then ok_headers (length content) @ [Close]
                     else [Shutdown, Close]), s)"
    if "dq_search s fname = Some (None, s)" "\<not> (m_new \<and> m_name \<and> m_resp)"
    using that by (auto simp: dq_handler_def)
  have 5: "naive_handler tx (Some fname) (Some content) m_new m_name m_resp now_hit now pq
          = Some ([Lock_cache, Cache_search, Unlock_cache]
                  @ (if m_new \<and> m_name then ok_headers (length content) @ [Close]
                     else [Shutdown, Close]), pq)"
    if "fst (pq_search now_hit pq fname) = None" "\<not> (m_new \<and> m_name \<and> m_resp)"
  proof -
    from that(1) have "fname \<notin> filename ` set (items pq)" by (simp add: pq_search_None_iff)
    then have "pq_search now_hit pq fname = (None, pq)" by (rule pq_search_miss)
    then show ?thesis using that(2) by (auto simp: naive_handler_def)
  qed
  from 1 2 3 4 5 show ?thesis by blast
qed

theorem alloc_failure_effect_witness:
  "full_send (\<lambda>k n. int n) \<and> int (length ''hi'') \<le> INT_MAX
   \<and> dq_search server_init ''f'' = Some (None, server_init)
   \<and> (\<exists>sends. dq_handler (\<lambda>k n. int n) (Some ''f'') (Some ''hi'') True True True None
                  \<lparr>tv_sec = 1, tv_nsec = 0\<rparr> server_init
       = Some ([Lock_cache, Cache_search, Unlock_cache, Send Status_ok, Send Date_header,
                Send (Content_length 2), Send Connection_close, Send Content_type]
               @ sends
               @ [Lock_cache, Cache_enqueue, Unlock_cache, Lock_log,
                  Write_log ''f'' 2, Unlock_log, Shutdown, Close], server_init)
       \<and> list_all is_send sends \<and> body_bytes sends = ''hi'')
   \<and> dq_handler (\<lambda>k n. int n) (Some ''f'') (Some ''hi'') True False True (Some 0)
         \<lparr>tv_sec = 1, tv_nsec = 0\<rparr> server_init
       = Some ([Lock_cache, Cache_search, Unlock_cache, Shutdown, Close], server_init)
   \<and> fst (pq_search \<lparr>tv_sec = 10, tv_nsec = 0\<rparr> two_slots ''c'') = None
   \<and> naive_handler (\<lambda>k n. int n) (Some ''c'') (Some ''hi'') True True False
        \<lparr>tv_sec = 10, tv_nsec = 0\<rparr> \<lparr>tv_sec = 1, tv_nsec = 0\<rparr> two_slots
       = Some ([Lock_cache, Cache_search, Unlock_cache, Send Status_ok, Send Date_header,
                Send (Content_length 2), Send Connection_close, Send Content_type, Close],
               two_slots)"
proof -
  note e = alloc_failure_effect [where s = server_init and fname = "''f''"
      and tx = "\<lambda>k n. int n" and content = "''hi''" and now = "\<lparr>tv_sec = 1, tv_nsec = 0\<rparr>"
      and m_node = "Some 0"]
  note e' = alloc_failure_effect [where fname = "''c''"
      and tx = "\<lambda>k n. int n" and content = "''hi''" and now = "\<lparr>tv_sec = 1, tv_nsec = 0\<rparr>"
      and now_hit = "\<lparr>tv_sec = 10, tv_nsec = 0\<rparr>" and pq = two_slots]
  have f: "full_send (\<lambda>k n. int n)" by (simp add: full_send_def)
  have l: "int (length ''hi'') \<le> INT_MAX" by (simp add: INT_MAX_def)
  have h1: "dq_search server_init ''f'' = Some (None, server_init)"
    by (simp add: dq_search_def server_init_def)
  have h2: "fst (pq_search \<lparr>tv_sec = 10, tv_nsec = 0\<rparr> two_slots ''c'') = None"
    by (simp add: two_slots_def pq_enqueue_def pq_empty_def MAX_items_def entry_def
        heapifyUp.simps swap_def compare_timespec_def pq_search_def search_loop.simps)
  from e [where m_new = True and m_name = True and m_resp = True, THEN conjunct2, THEN conjunct2, THEN conjunct1] f l h1
  have c1: "\<exists>sends. dq_handler (\<lambda>k n. int n) (Some ''f'') (Some ''hi'') True True True None
                  \<lparr>tv_sec = 1, tv_nsec = 0\<rparr> server_init
       = Some ([Lock_cache, Cache_search, Unlock_cache, Send Status_ok, Send Date_header,
                Send (Content_length 2), Send Connection_close, Send Content_type]
               @ sends
               @ [Lock_cache, Cache_enqueue, Unlock_cache, Lock_log,
                  Write_log ''f'' 2, Unlock_log, Shutdown, Close], server_init)
       \<and> list_all is_send sends \<and> body_bytes sends = ''hi''"
    by (simp add: ok_headers_def numeral_2_eq_2)
  from e [where m_new = True and m_name = False and m_resp = True, THEN conjunct2, THEN conjunct2, THEN conjunct2, THEN conjunct1] h1
  have c2: "dq_handler (\<lambda>k n. int n) (Some ''f'') (Some ''hi'') True False True (Some 0)
         \<lparr>tv_sec = 1, tv_nsec = 0\<rparr> server_init
       = Some ([Lock_cache, Cache_search, Unlock_cache, Shutdown, Close], server_init)"
    by simp
  from e' [where m_new = True and m_name = True and m_resp = False, THEN conjunct2, THEN conjunct2, THEN conjunct2, THEN conjunct2] h2
  have c3: "naive_handler (\<lambda>k n. int n) (Some ''c'') (Some ''hi'') True True False
        \<lparr>tv_sec = 10, tv_nsec = 0\<rparr> \<lparr>tv_sec = 1, tv_nsec = 0\<rparr> two_slots
       = Some ([Lock_cache, Cache_search, Unlock_cache, Send Status_ok, Send Date_header,
                Send (Content_length 2), Send Connection_close, Send Content_type, Close],
               two_slots)"
    by (simp add: ok_headers_def numeral_2_eq_2)
  from f l h1 c1 c2 h2 c3 show ?thesis by blast
qed

section \<open>Properties of the lock discipline\<close>


















subsection \<open>C8: the lock of the naive server\<close>









end
